theory Spec2Isabelle
  imports Main "HOL-Library.Word"
begin

section \<open>Build parameters\<close>

text \<open>
  \<^verbatim>\<open>command.c\<close> takes the device limit and the sizes of the three character arrays
  of \<^verbatim>\<open>AdbDevice\<close> from \<^verbatim>\<open>command.h\<close>. They are parameters of the model. \<open>ptr_size\<close> is
  \<^verbatim>\<open>sizeof(const char * )\<close>, which the code uses in two places through \<^verbatim>\<open>sizeof\<close> of a
  pointer and of an array of pointers. \<open>config_ok\<close> holds of a build for a machine with
  four- or eight-byte pointers whose arrays are not empty.
\<close>

record config =
  DEVICES_LIMIT :: nat
  serial_size :: nat
  state_size :: nat
  model_size :: nat
  ptr_size :: nat

definition config_ok :: "config \<Rightarrow> bool" where
  "config_ok c \<longleftrightarrow>
     0 < DEVICES_LIMIT c \<and> 0 < serial_size c \<and> 0 < state_size c \<and> 2 \<le> model_size c \<and>
     (ptr_size c = 4 \<or> ptr_size c = 8) \<and> ptr_size c - 1 \<le> state_size c"

section \<open>C strings and buffers\<close>

text \<open>
  A buffer is the list of its bytes. The C string held in a buffer is the bytes before
  the first NUL.
\<close>

definition NUL :: char where "NUL = CHR 0x00"
definition TAB :: char where "TAB = CHR 0x09"
definition LF :: char where "LF = CHR 0x0A"
definition CR :: char where "CR = CHR 0x0D"
definition SP :: char where "SP = CHR '' ''"

definition c_str :: "string \<Rightarrow> string" where
  "c_str buf = takeWhile (\<lambda>x. x \<noteq> NUL) buf"

text \<open>\<^verbatim>\<open>memset(dst, 0, n)\<close> on an array of \<open>n\<close> bytes.\<close>

definition memset0 :: "nat \<Rightarrow> string" where
  "memset0 n = replicate n NUL"

text \<open>\<^verbatim>\<open>memcpy(dst, src, n)\<close>: the first \<open>n\<close> bytes of \<open>dst\<close> are replaced.\<close>

definition memcpy :: "string \<Rightarrow> string \<Rightarrow> nat \<Rightarrow> string" where
  "memcpy dst src n = take n src @ drop n dst"

text \<open>\<^verbatim>\<open>memcmp(a, b, n) == 0\<close>.\<close>

definition memcmp_eq :: "string \<Rightarrow> string \<Rightarrow> nat \<Rightarrow> bool" where
  "memcmp_eq a b n \<longleftrightarrow> take n a = take n b"

text \<open>\<^verbatim>\<open>strchr(s, ch)\<close> as the offset of the first occurrence, \<open>None\<close> for NULL.\<close>

definition strchr :: "string \<Rightarrow> char \<Rightarrow> nat option" where
  "strchr s ch = (if ch \<in> set s then Some (length (takeWhile (\<lambda>x. x \<noteq> ch) s)) else None)"

text \<open>\<^verbatim>\<open>strstr(hay, needle)\<close> as the suffix of \<open>hay\<close> it points to, \<open>None\<close> for NULL.\<close>

fun strstr :: "string \<Rightarrow> string \<Rightarrow> string option" where
  "strstr [] needle = (if needle = [] then Some [] else None)"
| "strstr (h # hs) needle =
     (if take (length needle) (h # hs) = needle then Some (h # hs) else strstr hs needle)"

text \<open>
  \<^verbatim>\<open>strtok_r(s, "\n", &n)\<close>: leading newlines are skipped; at the end of the string the
  result is NULL; otherwise the token runs up to the next newline and the saved pointer
  \<open>n\<close> is set behind that newline (or at the end).
\<close>

definition strtok_r :: "string \<Rightarrow> (string \<times> string) option" where
  "strtok_r s =
     (let s' = dropWhile (\<lambda>x. x = LF) s
      in if s' = [] then None
         else Some (takeWhile (\<lambda>x. x \<noteq> LF) s', drop 1 (dropWhile (\<lambda>x. x \<noteq> LF) s')))"

text \<open>\<^verbatim>\<open>isalnum\<close> in the C locale.\<close>

definition isalnum :: "char \<Rightarrow> bool" where
  "isalnum ch \<longleftrightarrow>
     (let n = (of_char ch :: nat)
      in (48 \<le> n \<and> n \<le> 57) \<or> (65 \<le> n \<and> n \<le> 90) \<or> (97 \<le> n \<and> n \<le> 122))"

section \<open>Running the bridge tool\<close>

text \<open>
  \<^verbatim>\<open>cmd_execute\<close> and \<^verbatim>\<open>cmd_simple_wait\<close> are the platform's process layer. A backend
  maps the argument vector it is started with to what happens: the result of
  \<^verbatim>\<open>cmd_execute\<close>, whether \<^verbatim>\<open>cmd_simple_wait\<close> succeeds, and the bytes left in the
  capture buffer.
\<close>

datatype process_result = PROCESS_SUCCESS | PROCESS_ERROR_GENERIC | PROCESS_ERROR_MISSING_BINARY

record cmd_outcome =
  result :: process_result
  wait_ok :: bool
  captured :: string

type_synonym backend = "string list \<Rightarrow> cmd_outcome"

text \<open>A process handle is the outcome it will report; \<open>None\<close> is \<^verbatim>\<open>PROCESS_NONE\<close>.\<close>

type_synonym process_t = "cmd_outcome option"

definition process_check_success :: "process_t \<Rightarrow> bool" where
  "process_check_success proc = (case proc of None \<Rightarrow> False | Some r \<Rightarrow> wait_ok r)"

definition adb_exe :: string where
  "adb_exe = ''adb''"

text \<open>
  \<open>adb_execute\<close> returns the process handle, the capture buffer and the argument
  vectors it started (none when the argument count check refuses the call).
\<close>

definition adb_execute ::
  "config \<Rightarrow> backend \<Rightarrow> string option \<Rightarrow> string list \<Rightarrow> process_t \<times> string \<times> string list list" where
  "adb_execute c be serial adb_cmd =
     (if length adb_cmd > 32 * ptr_size c - 4 then (None, [], [])
      else
        let cmd = adb_exe # (case serial of Some s \<Rightarrow> [''-s'', s] | None \<Rightarrow> []) @ adb_cmd;
            r = be cmd
        in if result r \<noteq> PROCESS_SUCCESS then (None, captured r, [cmd])
           else (Some r, captured r, [cmd]))"

section \<open>The bridge registry\<close>

text \<open>
  The fields of \<^verbatim>\<open>AdbDevice\<close> are character arrays: each is the list of the bytes of
  the array, of the field's size.
\<close>

record AdbDevice =
  serial :: string
  state :: string
  model :: string

record AdbMgr =
  deviceList :: "AdbDevice option list"
  iter :: int

text \<open>
  The constructor \<^verbatim>\<open>AdbMgr::AdbMgr\<close>: every slot becomes null and \<^verbatim>\<open>start-server\<close> is run,
  its failure only logged. The constructor does not assign the cursor; \<open>it\<close> is the
  value the member has. Returns the registry and the argument vectors started.
\<close>

definition AdbMgr_ctor :: "config \<Rightarrow> backend \<Rightarrow> int \<Rightarrow> AdbMgr \<times> string list list" where
  "AdbMgr_ctor c be it =
     (case adb_execute c be None [''start-server''] of (proc, _, started) \<Rightarrow>
        (\<lparr>deviceList = replicate (DEVICES_LIMIT c) None, iter = it\<rparr>, started))"

datatype fault = NullPointer | OutOfBounds

datatype 'a ctl = Continue 'a | Break 'a

definition is_blank :: "char \<Rightarrow> bool" where
  "is_blank x \<longleftrightarrow> x \<noteq> CR \<and> x \<noteq> NUL \<and> (x = SP \<or> x = TAB)"

text \<open>
  One pass through the body of the \<^verbatim>\<open>do ... while\<close> loop of \<^verbatim>\<open>AdbMgr::Reload\<close> for the
  token \<open>p\<close>, with the slot index \<open>i\<close> and the table. \<^verbatim>\<open>continue\<close> and falling off the
  end of the body are \<open>Continue\<close>, \<^verbatim>\<open>break\<close> is \<open>Break\<close>. The store \<^verbatim>\<open>p[len] = 0\<close> lies at
  or before the separator and nothing reads it afterwards. \<^verbatim>\<open>strchr(p, '\0')\<close> finds
  the terminator, so its offset is the length of the string.
\<close>

definition Reload_body ::
  "config \<Rightarrow> string \<Rightarrow> nat \<times> AdbDevice option list \<Rightarrow> fault + (nat \<times> AdbDevice option list) ctl" where
  "Reload_body c p st =
     (if strstr p ''List of'' \<noteq> None then Inr (Continue st)
      else
        case (case strchr p SP of Some k \<Rightarrow> Some k | None \<Rightarrow> strchr p TAB) of
          None \<Rightarrow> Inr (Break st)
        | Some sep \<Rightarrow>
            if sep = 0 then Inr (Continue st)
            else
              let len = (if sep > serial_size c - 1 then serial_size c - 1 else sep);
                  dev_serial = memcpy (memset0 (serial_size c)) p len;
                  p' = dropWhile is_blank (drop (sep + 1) p);
                  sep' = length p'
              in if sep' = 0 then Inr (Continue st)
                 else
                   let len' = (if sep' > state_size c - 1 then state_size c - 1 else sep');
                       dev_state = memcpy (memset0 (state_size c)) p' len'
                   in case st of (i, dl) \<Rightarrow>
                        if length dl \<le> i then Inl OutOfBounds
                        else
                          let dl' = dl[i := Some \<lparr>serial = dev_serial, state = dev_state,
                                                  model = memset0 (model_size c)\<rparr>]
                          in if Suc i = DEVICES_LIMIT c then Inr (Break (Suc i, dl'))
                             else Inr (Continue (Suc i, dl')))"

lemma strtok_r_decreases: "strtok_r n = Some (p, n') \<Longrightarrow> length n' < length n"
proof -
  assume a: "strtok_r n = Some (p, n')"
  define s where "s = dropWhile (\<lambda>x. x = LF) n"
  from a have ne: "s \<noteq> []" and n': "n' = drop 1 (dropWhile (\<lambda>x. x \<noteq> LF) s)"
    by (auto simp: strtok_r_def Let_def s_def split: if_splits)
  have "length s \<le> length n"
    unfolding s_def by (rule length_dropWhile_le)
  moreover have "length n' < length s"
  proof (cases "dropWhile (\<lambda>x. x \<noteq> LF) s")
    case Nil
    with ne n' show ?thesis by simp
  next
    case (Cons a as)
    have "length (dropWhile (\<lambda>x. x \<noteq> LF) s) \<le> length s"
      by (rule length_dropWhile_le)
    with Cons n' show ?thesis by simp
  qed
  ultimately show ?thesis by simp
qed

text \<open>
  The loop of \<^verbatim>\<open>AdbMgr::Reload\<close>: \<open>p\<close> is the current token and \<open>n\<close> the saved pointer
  of \<^verbatim>\<open>strtok_r\<close>.
\<close>

function Reload_loop ::
  "config \<Rightarrow> string \<Rightarrow> string \<Rightarrow> nat \<times> AdbDevice option list \<Rightarrow> fault + (nat \<times> AdbDevice option list)" where
  "Reload_loop c p n st =
     (case Reload_body c p st of
        Inl f \<Rightarrow> Inl f
      | Inr (Break st') \<Rightarrow> Inr st'
      | Inr (Continue st') \<Rightarrow>
          (case strtok_r n of
             None \<Rightarrow> Inr st'
           | Some (p', n') \<Rightarrow> Reload_loop c p' n' st'))"
  by pat_completeness auto
termination
  by (relation "measure (\<lambda>(c, p, n, st). length n)") (auto dest: strtok_r_decreases)

declare Reload_loop.simps [simp del]

text \<open>
  \<^verbatim>\<open>AdbMgr::Reload\<close>: the value returned and the registry. The first token goes to
  \<^verbatim>\<open>strstr\<close> with no test for NULL, so a captured text with no line in it is the fault
  \<open>NullPointer\<close>.
\<close>

definition Reload :: "config \<Rightarrow> backend \<Rightarrow> AdbMgr \<Rightarrow> fault + (bool \<times> AdbMgr)" where
  "Reload c be m =
     (case adb_execute c be None [''reconnect'', ''offline''] of (proc, _, _) \<Rightarrow>
        if \<not> process_check_success proc then Inr (False, m)
        else
          case adb_execute c be None [''devices''] of (proc', buf, _) \<Rightarrow>
            if \<not> process_check_success proc' then Inr (False, m)
            else
              case strtok_r (c_str buf) of
                None \<Rightarrow> Inl NullPointer
              | Some (p, n) \<Rightarrow>
                  (case Reload_loop c p n (0, deviceList m) of
                     Inl f \<Rightarrow> Inl f
                   | Inr (i, dl) \<Rightarrow> Inr (True, m\<lparr>deviceList := dl\<rparr>)))"

definition safe_char :: "char \<Rightarrow> bool" where
  "safe_char x \<longleftrightarrow> isalnum x \<or> x = SP \<or> x = CHR ''-'' \<or> x = CHR ''_''"

text \<open>
  \<^verbatim>\<open>GetModel\<close>: the capture buffer starts zeroed, so the scan stops at the end of the
  output at the latest. Returns the device and the argument vectors started.
\<close>

definition GetModel :: "config \<Rightarrow> backend \<Rightarrow> AdbDevice \<Rightarrow> AdbDevice \<times> string list list" where
  "GetModel c be dev =
     (case adb_execute c be (Some (c_str (serial dev))) [''shell'', ''getprop'', ''ro.product.model'']
      of (proc, buf, started) \<Rightarrow>
        if process_check_success proc
        then
          let n = length (takeWhile safe_char (take (model_size c - 2) buf))
          in (dev\<lparr>model := memcpy (model dev) buf n\<rparr>, started)
        else (dev, started))"

text \<open>
  \<^verbatim>\<open>AdbMgr::NextDevice\<close>. The result is the slot whose record is returned (\<open>None\<close> for
  the null pointer), the value of \<^verbatim>\<open>*is_offline\<close> afterwards, the registry, and the
  argument vectors started. \<^verbatim>\<open>offline\<close> is a pointer, so \<^verbatim>\<open>sizeof(offline)-1\<close> is the
  pointer size less one. A read of the table at a negative cursor is the fault
  \<open>OutOfBounds\<close>.
\<close>

definition NextDevice ::
  "config \<Rightarrow> backend \<Rightarrow> AdbMgr \<Rightarrow> int \<Rightarrow> fault + (nat option \<times> int \<times> AdbMgr \<times> string list list)" where
  "NextDevice c be m is_offline =
     (let it = (if iter m \<ge> int (DEVICES_LIMIT c) then 0 else iter m)
      in if it < 0 \<or> int (length (deviceList m)) \<le> it then Inl OutOfBounds
         else
           case deviceList m ! nat it of
             None \<Rightarrow> Inr (None, is_offline, m\<lparr>iter := it\<rparr>, [])
           | Some d \<Rightarrow>
               let off = (if memcmp_eq (''offline'' @ [NUL]) (state d) (ptr_size c - 1)
                          then 1 else 0 :: int);
                   m' = m\<lparr>iter := it + 1\<rparr>
               in if off = 0 \<and> model d ! 0 = NUL
                  then
                    case GetModel c be d of (d', started) \<Rightarrow>
                      Inr (Some (nat it), off, m'\<lparr>deviceList := (deviceList m)[nat it := Some d']\<rparr>,
                           started)
                  else Inr (Some (nat it), off, m', []))"

text \<open>
  A caller's sequence of \<^verbatim>\<open>NextDevice\<close> calls with no \<^verbatim>\<open>Reload\<close> between them. Each
  call meets the backend as it is at that moment, so the backends come as a list. The
  result lists, per call, the slot returned, \<^verbatim>\<open>*is_offline\<close> and the argument vectors
  started.
\<close>

fun NextDevice_calls ::
  "config \<Rightarrow> backend list \<Rightarrow> AdbMgr \<Rightarrow> int \<Rightarrow>
     fault + ((nat option \<times> int \<times> string list list) list \<times> AdbMgr \<times> int)" where
  "NextDevice_calls c [] m is_offline = Inr ([], m, is_offline)"
| "NextDevice_calls c (be # bes) m is_offline =
     (case NextDevice c be m is_offline of
        Inl f \<Rightarrow> Inl f
      | Inr (r, off, m', started) \<Rightarrow>
          (case NextDevice_calls c bes m' off of
             Inl f \<Rightarrow> Inl f
           | Inr (rs, m'', off') \<Rightarrow> Inr ((r, off, started) # rs, m'', off')))"

section \<open>The multiplex registry\<close>

text \<open>
  \<open>platform\<close> says which of \<^verbatim>\<open>__APPLE__\<close> and \<^verbatim>\<open>_WIN32\<close> the build defines.
  \<open>hModule\<close> exists in the \<^verbatim>\<open>_WIN32\<close> build only and is read there only. The device
  list is the daemon's allocation seen through the pointer \<^verbatim>\<open>deviceList\<close>: what the
  store holds at each offset from it; the daemon fills the offsets from 0 up to the
  count it reports. \<open>INVALID_SOCKET\<close> is the value that \<^verbatim>\<open>net.h\<close> gives this name.
\<close>

datatype platform = APPLE | WIN32 | OTHER

record mux_config =
  platform :: platform
  INVALID_SOCKET :: int

record usbmuxd_device_info =
  handle :: nat

record USBMux =
  hModule :: bool
  mux_deviceList :: "int \<Rightarrow> usbmuxd_device_info"
  deviceCount :: int
  mux_iter :: int

text \<open>
  The daemon client library: what \<^verbatim>\<open>usbmuxd_get_device_list\<close> returns and stores
  through its argument at this moment, and \<^verbatim>\<open>usbmuxd_connect\<close> as a function of the
  handle and the port.
\<close>

record usbmuxd =
  usbmuxd_get_device_list :: "int \<times> (int \<Rightarrow> usbmuxd_device_info)"
  usbmuxd_connect :: "nat \<Rightarrow> int \<Rightarrow> int"

datatype mux_call = Device_list_free | Get_device_list | Connect_call nat int

text \<open>\<^verbatim>\<open>USBMux::Reload\<close>: the value returned, the registry, the daemon calls made.\<close>

definition USBMux_Reload ::
  "mux_config \<Rightarrow> usbmuxd \<Rightarrow> USBMux \<Rightarrow> int \<times> USBMux \<times> mux_call list" where
  "USBMux_Reload k d m =
     (if platform k = APPLE then (0, m\<lparr>deviceCount := 0\<rparr>, [])
      else if platform k = WIN32 \<and> \<not> hModule m then (0, m\<lparr>deviceCount := 0\<rparr>, [])
      else
        case usbmuxd_get_device_list d of (cnt, lst) \<Rightarrow>
          if cnt < 0
          then (0, m\<lparr>mux_deviceList := lst, deviceCount := 0\<rparr>, [Device_list_free, Get_device_list])
          else (1, m\<lparr>mux_deviceList := lst, deviceCount := cnt\<rparr>, [Device_list_free, Get_device_list]))"

text \<open>
  \<^verbatim>\<open>USBMux::NextDevice\<close>: the offset of the record whose address is returned
  (\<open>None\<close> for the null pointer) and the registry.
\<close>

definition USBMux_NextDevice :: "USBMux \<Rightarrow> int option \<times> USBMux" where
  "USBMux_NextDevice m =
     (if mux_iter m \<ge> deviceCount m then (None, m)
      else (Some (mux_iter m), m\<lparr>mux_iter := mux_iter m + 1\<rparr>))"

text \<open>\<^verbatim>\<open>(short) port\<close>: the low 16 bits, read as two's complement.\<close>

definition short_of_int :: "int \<Rightarrow> int" where
  "short_of_int x = sint (word_of_int x :: 16 word)"

text \<open>
  \<^verbatim>\<open>USBMux::Connect\<close>: the value returned and the daemon calls made. The elements of
  the device list are those at the offsets 0 up to the device count; the read of
  \<^verbatim>\<open>deviceList[device].handle\<close> at another offset is the fault \<open>OutOfBounds\<close>. Under the
  comparison \<^verbatim>\<open>device < deviceCount\<close> that is the case of a negative index.
\<close>

definition USBMux_Connect ::
  "mux_config \<Rightarrow> usbmuxd \<Rightarrow> USBMux \<Rightarrow> int \<Rightarrow> int \<Rightarrow> fault + (int \<times> mux_call list)" where
  "USBMux_Connect k d m device port =
     (if platform k = APPLE then Inr (INVALID_SOCKET k, [])
      else if platform k = WIN32 \<and> \<not> hModule m then Inr (INVALID_SOCKET k, [])
      else if device < deviceCount m
      then
        if device < 0 \<or> deviceCount m \<le> device then Inl OutOfBounds
        else
          let h = handle (mux_deviceList m device);
              rc = usbmuxd_connect d h (short_of_int port)
          in if rc \<le> 0 then Inr (INVALID_SOCKET k, [Connect_call h (short_of_int port)])
             else Inr (rc, [Connect_call h (short_of_int port)])
      else Inr (INVALID_SOCKET k, []))"

section \<open>Notions used in the statements\<close>

text \<open>A command succeeds when the process starts and its wait reports success.\<close>

definition cmd_succeeds :: "backend \<Rightarrow> string list \<Rightarrow> bool" where
  "cmd_succeeds be argv \<longleftrightarrow> result (be argv) = PROCESS_SUCCESS \<and> wait_ok (be argv)"

text \<open>
  A registry whose table has its \<^verbatim>\<open>DEVICES_LIMIT\<close> slots and whose cursor is not
  negative. \<open>cursor\<close> is the slot a \<open>NextDevice\<close> call looks at, after its wrap of
  the cursor.
\<close>

definition mgr_ok :: "config \<Rightarrow> AdbMgr \<Rightarrow> bool" where
  "mgr_ok c m \<longleftrightarrow> length (deviceList m) = DEVICES_LIMIT c \<and> 0 \<le> iter m"

definition cursor :: "config \<Rightarrow> AdbMgr \<Rightarrow> nat" where
  "cursor c m = (if iter m \<ge> int (DEVICES_LIMIT c) then 0 else nat (iter m))"

text \<open>The argument vector of the model query for a device.\<close>

definition getprop_argv :: "AdbDevice \<Rightarrow> string list" where
  "getprop_argv d = [adb_exe, ''-s'', c_str (serial d), ''shell'', ''getprop'', ''ro.product.model'']"

text \<open>The state buffer begins with the seven bytes \<^verbatim>\<open>offline\<close>.\<close>

definition offline_state :: "AdbDevice \<Rightarrow> bool" where
  "offline_state d \<longleftrightarrow> take 7 (state d) = ''offline''"

text \<open>The test \<open>NextDevice\<close> makes for \<^verbatim>\<open>*is_offline\<close>.\<close>

definition reads_offline :: "config \<Rightarrow> AdbDevice \<Rightarrow> bool" where
  "reads_offline c d \<longleftrightarrow> memcmp_eq (''offline'' @ [NUL]) (state d) (ptr_size c - 1)"

text \<open>Two registries hold the same serial and state in every slot.\<close>

definition same_states :: "AdbMgr \<Rightarrow> AdbMgr \<Rightarrow> bool" where
  "same_states m m' \<longleftrightarrow>
     map (map_option (\<lambda>d. (serial d, state d))) (deviceList m') =
     map (map_option (\<lambda>d. (serial d, state d))) (deviceList m)"

text \<open>Which slots hold a record.\<close>

definition populated :: "AdbMgr \<Rightarrow> bool list" where
  "populated m = map (\<lambda>x. x \<noteq> None) (deviceList m)"

text \<open>
  What the loop of \<open>Reload\<close> does to the table while its slot index goes from \<open>i\<close> to
  \<open>i'\<close>: the slots from \<open>i\<close> up to \<open>i'\<close> hold records whose model field is all zero, and
  every other slot is as before.
\<close>

definition wrote_cleared ::
  "config \<Rightarrow> nat \<Rightarrow> nat \<Rightarrow> AdbDevice option list \<Rightarrow> AdbDevice option list \<Rightarrow> bool" where
  "wrote_cleared c i i' dl dl' \<longleftrightarrow>
     length dl' = length dl \<and> i \<le> i' \<and> (i \<le> length dl \<longrightarrow> i' \<le> length dl) \<and>
     (\<forall>j. i \<le> j \<and> j < i' \<longrightarrow> (\<exists>d. dl' ! j = Some d \<and> model d = memset0 (model_size c))) \<and>
     (\<forall>j. j < i \<or> i' \<le> j \<longrightarrow> dl' ! j = dl ! j)"

text \<open>
  The loop of \<open>Reload\<close> over a list of tokens: the body for each token in turn, up to
  the first \<^verbatim>\<open>break\<close>.
\<close>

fun Reload_tokens ::
  "config \<Rightarrow> string list \<Rightarrow> nat \<times> AdbDevice option list \<Rightarrow> fault + (nat \<times> AdbDevice option list) ctl" where
  "Reload_tokens c [] st = Inr (Continue st)"
| "Reload_tokens c (p # ps) st =
     (case Reload_body c p st of
        Inl f \<Rightarrow> Inl f
      | Inr (Break st') \<Rightarrow> Inr (Break st')
      | Inr (Continue st') \<Rightarrow> Reload_tokens c ps st')"

text \<open>The text of further lines, each behind a newline.\<close>

definition after_lines :: "string list \<Rightarrow> string" where
  "after_lines ls = concat (map (\<lambda>l. LF # l) ls)"

text \<open>Lines joined by single newlines.\<close>

definition lines_text :: "string list \<Rightarrow> string" where
  "lines_text ls = drop 1 (after_lines ls)"

text \<open>
  A device line is given by its serial, its separator and its state. The tokens are
  not empty, have no space, tab, newline or NUL, and fit their fields with the
  terminator; the separator is a run of spaces and tabs that starts with a space or
  has no space in it; the line does not contain the header marker.
\<close>

definition token_char :: "char \<Rightarrow> bool" where
  "token_char x \<longleftrightarrow> x \<noteq> SP \<and> x \<noteq> TAB \<and> x \<noteq> LF \<and> x \<noteq> NUL"

definition separator_ok :: "string \<Rightarrow> bool" where
  "separator_ok w \<longleftrightarrow>
     w \<noteq> [] \<and> list_all (\<lambda>x. x = SP \<or> x = TAB) w \<and> (hd w = SP \<or> list_all (\<lambda>x. x = TAB) w)"

definition line_text :: "string \<times> string \<times> string \<Rightarrow> string" where
  "line_text l = (case l of (s, w, t) \<Rightarrow> s @ w @ t)"

definition device_line_ok :: "config \<Rightarrow> string \<times> string \<times> string \<Rightarrow> bool" where
  "device_line_ok c l =
     (case l of (s, w, t) \<Rightarrow>
        s \<noteq> [] \<and> length s < serial_size c \<and> list_all token_char s \<and> separator_ok w \<and>
        t \<noteq> [] \<and> length t < state_size c \<and> list_all token_char t \<and>
        strstr (s @ w @ t) ''List of'' = None)"

text \<open>The record \<open>Reload\<close> is to store for a device line: both fields zero-padded.\<close>

definition stored :: "config \<Rightarrow> string \<times> string \<times> string \<Rightarrow> AdbDevice" where
  "stored c l =
     (case l of (s, w, t) \<Rightarrow>
        \<lparr>serial = s @ replicate (serial_size c - length s) NUL,
         state = t @ replicate (state_size c - length t) NUL,
         model = replicate (model_size c) NUL\<rparr>)"

text \<open>A header line: it contains the marker and no newline or NUL.\<close>

definition header_ok :: "string \<Rightarrow> bool" where
  "header_ok h \<longleftrightarrow> strstr h ''List of'' \<noteq> None \<and> LF \<notin> set h \<and> NUL \<notin> set h"

text \<open>A line with no separator: not empty, no space, tab, newline or NUL.\<close>

definition no_separator :: "string \<Rightarrow> bool" where
  "no_separator b \<longleftrightarrow> b \<noteq> [] \<and> list_all token_char b"

section \<open>Instances for the small build\<close>

text \<open>Two backends that answer every command alike.\<close>

definition backend_ok :: "string \<Rightarrow> backend" where
  "backend_ok txt = (\<lambda>argv. \<lparr>result = PROCESS_SUCCESS, wait_ok = True, captured = txt\<rparr>)"

definition backend_down :: backend where
  "backend_down = (\<lambda>argv. \<lparr>result = PROCESS_ERROR_MISSING_BINARY, wait_ok = False, captured = []\<rparr>)"

text \<open>A small build: two slots, eight-byte fields, eight-byte pointers.\<close>

definition small_config :: config where
  "small_config = \<lparr>DEVICES_LIMIT = 2, serial_size = 8, state_size = 8, model_size = 8, ptr_size = 8\<rparr>"

definition empty_mgr :: AdbMgr where
  "empty_mgr = \<lparr>deviceList = [None, None], iter = 0\<rparr>"

definition device_of :: "string \<Rightarrow> string \<Rightarrow> string \<Rightarrow> AdbDevice" where
  "device_of s t mo =
     \<lparr>serial = s @ replicate (8 - length s) NUL, state = t @ replicate (8 - length t) NUL,
      model = mo @ replicate (8 - length mo) NUL\<rparr>"

definition linux_mux :: mux_config where
  "linux_mux = \<lparr>platform = OTHER, INVALID_SOCKET = - 1\<rparr>"

definition one_device_mux :: USBMux where
  "one_device_mux =
     \<lparr>hModule = False, mux_deviceList = (\<lambda>i. \<lparr>handle = if i = 0 then 7 else 99\<rparr>),
      deviceCount = 1, mux_iter = 0\<rparr>"

definition daemon_with :: "int \<Rightarrow> int \<Rightarrow> usbmuxd" where
  "daemon_with cnt rc =
     \<lparr>usbmuxd_get_device_list = (cnt, \<lambda>i. \<lparr>handle = 7\<rparr>), usbmuxd_connect = (\<lambda>h p. rc)\<rparr>"

text \<open>
  Two registries of the small build: one with both slots in use, the first device
  offline and the second with no model yet; one with the first slot in use only.
\<close>

definition mixed_mgr :: AdbMgr where
  "mixed_mgr =
     \<lparr>deviceList = [Some (device_of ''ab'' ''offline'' []), Some (device_of ''cd'' ''device'' [])],
      iter = 0\<rparr>"

definition half_mgr :: AdbMgr where
  "half_mgr = \<lparr>deviceList = [Some (device_of ''ab'' ''device'' ''Pixel''), None], iter = 0\<rparr>"

text \<open>The second registry with the cursor on its second slot, and a device listing.\<close>

definition mixed_mgr_at_1 :: AdbMgr where
  "mixed_mgr_at_1 = mixed_mgr\<lparr>iter := 1\<rparr>"

definition one_device_listing :: string where
  "one_device_listing = ''List of devices attached'' @ [LF] @ ''ab'' @ [TAB] @ ''device'' @ [LF]"

text \<open>Listings and device lines of the small build.\<close>

definition attached_header :: string where
  "attached_header = ''List of devices attached''"

definition two_device_lines :: "(string \<times> string \<times> string) list" where
  "two_device_lines = [(''ab'', [TAB], ''device''), (''cd'', [SP, SP], ''offline'')]"

section \<open>Command failure in Reload\<close>

lemma adb_execute_check:
  "process_check_success (fst (adb_execute c be s args)) \<Longrightarrow>
     cmd_succeeds be (adb_exe # (case s of Some x \<Rightarrow> [''-s'', x] | None \<Rightarrow> []) @ args)"
  by (auto simp: adb_execute_def process_check_success_def cmd_succeeds_def Let_def split: if_splits)

text \<open>
  C6. If the \<^verbatim>\<open>reconnect offline\<close> command or the \<^verbatim>\<open>devices\<close> command fails (the
  process does not start, or its wait reports failure), \<open>Reload\<close> returns false and the
  registry, with every slot, is as it was before the call.
\<close>

theorem Reload_command_failure:
  assumes "\<not> cmd_succeeds be [adb_exe, ''reconnect'', ''offline''] \<or>
           \<not> cmd_succeeds be [adb_exe, ''devices'']"
  shows "Reload c be m = Inr (False, m)"
proof -
  obtain p1 b1 l1 where e1: "adb_execute c be None [''reconnect'', ''offline''] = (p1, b1, l1)"
    by (cases "adb_execute c be None [''reconnect'', ''offline'']") auto
  obtain p2 b2 l2 where e2: "adb_execute c be None [''devices''] = (p2, b2, l2)"
    by (cases "adb_execute c be None [''devices'']") auto
  show ?thesis
  proof (cases "process_check_success p1")
    case False
    with e1 show ?thesis by (simp add: Reload_def)
  next
    case True
    with adb_execute_check [of c be None "[''reconnect'', ''offline'']"] e1
    have "cmd_succeeds be [adb_exe, ''reconnect'', ''offline'']" by simp
    with assms have "\<not> cmd_succeeds be [adb_exe, ''devices'']" by simp
    with adb_execute_check [of c be None "[''devices'']"] e2
    have "\<not> process_check_success p2" by auto
    with e1 e2 True show ?thesis by (simp add: Reload_def)
  qed
qed

theorem Reload_command_failure_witness:
  "\<not> cmd_succeeds backend_down [adb_exe, ''reconnect'', ''offline''] \<and>
   Reload small_config backend_down
     \<lparr>deviceList = [Some (device_of ''ab'' ''device'' ''Pixel''), None], iter = 1\<rparr> =
   Inr (False, \<lparr>deviceList = [Some (device_of ''ab'' ''device'' ''Pixel''), None], iter = 1\<rparr>)"
proof -
  have h: "\<not> cmd_succeeds backend_down [adb_exe, ''reconnect'', ''offline'']"
    by (simp add: cmd_succeeds_def backend_down_def)
  then show ?thesis
    using Reload_command_failure [of backend_down] by simp
qed

section \<open>Model resolution\<close>

lemma GetModel_success:
  assumes "cmd_succeeds be [adb_exe, ''-s'', c_str (serial dev), ''shell'', ''getprop'', ''ro.product.model'']"
    and "captured (be [adb_exe, ''-s'', c_str (serial dev), ''shell'', ''getprop'', ''ro.product.model'']) = txt"
    and "config_ok c"
  shows "GetModel c be dev =
           (dev\<lparr>model := takeWhile safe_char (take (model_size c - 2) txt) @
                           drop (length (takeWhile safe_char (take (model_size c - 2) txt))) (model dev)\<rparr>,
            [[adb_exe, ''-s'', c_str (serial dev), ''shell'', ''getprop'', ''ro.product.model'']]) \<and>
         (model dev = memset0 (model_size c) \<longrightarrow>
            c_str (model (fst (GetModel c be dev))) = takeWhile safe_char (take (model_size c - 2) txt))"
proof -
  let ?pre = "takeWhile safe_char (take (model_size c - 2) txt)"
  have le: "length ?pre \<le> model_size c - 2"
    by (rule order_trans [OF length_takeWhile_le]) simp
  have "take (length ?pre) txt = take (length ?pre) (take (model_size c - 2) txt)"
    using le by (simp add: min_absorb1)
  also have "\<dots> = ?pre"
    by (rule takeWhile_eq_take [symmetric])
  finally have tk: "take (length ?pre) txt = ?pre" .
  have guard: "\<not> 32 * ptr_size c - 4 < 3"
    using assms(3) by (auto simp: config_ok_def)
  have g: "GetModel c be dev = (dev\<lparr>model := ?pre @ drop (length ?pre) (model dev)\<rparr>,
            [[adb_exe, ''-s'', c_str (serial dev), ''shell'', ''getprop'', ''ro.product.model'']])"
    using assms(1,2) guard tk
    by (simp add: GetModel_def adb_execute_def Let_def process_check_success_def cmd_succeeds_def memcpy_def)
  have nn: "\<forall>x\<in>set ?pre. x \<noteq> NUL"
    by (auto dest!: set_takeWhileD simp: safe_char_def isalnum_def NUL_def SP_def)
  have "c_str (?pre @ replicate n NUL) = ?pre" for n
    using nn by (cases n) (simp_all add: c_str_def takeWhile_tail)
  then have "model dev = memset0 (model_size c) \<Longrightarrow> c_str (model (fst (GetModel c be dev))) = ?pre"
    by (simp add: g memset0_def)
  with g show ?thesis by simp
qed

text \<open>
  C7, as the code has it. When the \<^verbatim>\<open>shell getprop ro.product.model\<close> command for the
  device's serial succeeds with text \<open>txt\<close>, \<open>GetModel\<close> copies the longest leading run
  of safe characters (alphanumeric, space, hyphen, underscore) found in the first
  \<open>model_size - 2\<close> bytes of \<open>txt\<close> over the start of the model field; the first other
  character and all that follows it are dropped. On a cleared model field the model
  string is then exactly that run.
\<close>

theorem GetModel_safe_prefix:
  assumes "cmd_succeeds be [adb_exe, ''-s'', c_str (serial dev), ''shell'', ''getprop'', ''ro.product.model'']"
    and "captured (be [adb_exe, ''-s'', c_str (serial dev), ''shell'', ''getprop'', ''ro.product.model'']) = txt"
    and "config_ok c"
  shows "GetModel c be dev =
           (dev\<lparr>model := takeWhile safe_char (take (model_size c - 2) txt) @
                           drop (length (takeWhile safe_char (take (model_size c - 2) txt))) (model dev)\<rparr>,
            [[adb_exe, ''-s'', c_str (serial dev), ''shell'', ''getprop'', ''ro.product.model'']]) \<and>
         (model dev = memset0 (model_size c) \<longrightarrow>
            c_str (model (fst (GetModel c be dev))) = takeWhile safe_char (take (model_size c - 2) txt))"
  using assms by (rule GetModel_success)

theorem GetModel_safe_prefix_witness:
  "config_ok small_config \<and>
   cmd_succeeds (backend_ok (''Pixel 3 XL'' @ [LF]))
     [adb_exe, ''-s'', c_str (serial (device_of ''ab'' ''device'' [])), ''shell'', ''getprop'',
      ''ro.product.model''] \<and>
   model (device_of ''ab'' ''device'' []) = memset0 (model_size small_config) \<and>
   GetModel small_config (backend_ok (''Pixel 3 XL'' @ [LF])) (device_of ''ab'' ''device'' []) =
     (device_of ''ab'' ''device'' ''Pixel '',
      [[''adb'', ''-s'', ''ab'', ''shell'', ''getprop'', ''ro.product.model'']]) \<and>
   c_str (model (fst (GetModel small_config (backend_ok (''Pixel 3 XL'' @ [LF]))
                        (device_of ''ab'' ''device'' [])))) = ''Pixel ''"
proof -
  let ?be = "backend_ok (''Pixel 3 XL'' @ [LF])"
  let ?dev = "device_of ''ab'' ''device'' []"
  let ?argv = "[adb_exe, ''-s'', c_str (serial ?dev), ''shell'', ''getprop'', ''ro.product.model'']"
  have c: "config_ok small_config"
    by (simp add: config_ok_def small_config_def)
  have s: "cmd_succeeds ?be ?argv"
    by (simp add: cmd_succeeds_def backend_ok_def)
  have t: "captured (?be ?argv) = ''Pixel 3 XL'' @ [LF]"
    by (simp add: backend_ok_def)
  have z: "model ?dev = memset0 (model_size small_config)"
    by code_simp
  note th = GetModel_safe_prefix [OF s t c]
  have "GetModel small_config ?be ?dev =
          (device_of ''ab'' ''device'' ''Pixel '',
           [[''adb'', ''-s'', ''ab'', ''shell'', ''getprop'', ''ro.product.model'']])"
    by (subst conjunct1 [OF th]) code_simp
  moreover have "c_str (model (fst (GetModel small_config ?be ?dev))) = ''Pixel ''"
    by (subst mp [OF conjunct2 [OF th] z]) code_simp
  ultimately show ?thesis using c s z by simp
qed

text \<open>
  The text \<^verbatim>\<open>a(b\<close> filtered to the safe characters is \<^verbatim>\<open>ab\<close>; the code stores \<^verbatim>\<open>a\<close>.
  Of \<^verbatim>\<open>SM-G950F (EU)\<close> it stores the six bytes \<^verbatim>\<open>SM-G95\<close> in an eight-byte field.
\<close>

theorem GetModel_filter_counterexample:
  "c_str (model (fst (GetModel small_config (backend_ok (''a(b'' @ [LF]))
                        (device_of ''ab'' ''device'' [])))) = ''a'' \<and>
   filter safe_char (''a(b'' @ [LF]) = ''ab'' \<and>
   c_str (model (fst (GetModel small_config (backend_ok (''SM-G950F (EU)'' @ [LF]))
                        (device_of ''ab'' ''device'' [])))) = ''SM-G95''"
  by code_simp

section \<open>The iterator\<close>

lemma cursor_less: "config_ok c \<Longrightarrow> mgr_ok c m \<Longrightarrow> cursor c m < DEVICES_LIMIT c"
  by (auto simp: cursor_def config_ok_def mgr_ok_def)

lemma GetModel_fields:
  "serial (fst (GetModel c be d)) = serial d" "state (fst (GetModel c be d)) = state d"
  by (auto simp: GetModel_def Let_def split: prod.splits)

lemma GetModel_started:
  "config_ok c \<Longrightarrow> snd (GetModel c be d) = [getprop_argv d]"
  by (auto simp: GetModel_def adb_execute_def Let_def getprop_argv_def config_ok_def split: prod.splits)

lemma NextDevice_empty:
  assumes "config_ok c" "mgr_ok c m" "deviceList m ! cursor c m = None"
  shows "NextDevice c be m off = Inr (None, off, m\<lparr>iter := int (cursor c m)\<rparr>, [])"
  using assms cursor_less [OF assms(1,2)]
  by (auto simp: NextDevice_def Let_def cursor_def mgr_ok_def)

lemma NextDevice_device:
  assumes "config_ok c" "mgr_ok c m" "deviceList m ! cursor c m = Some d"
  shows "NextDevice c be m off =
     Inr (Some (cursor c m),
          (if reads_offline c d then 1 else 0),
          (if \<not> reads_offline c d \<and> model d ! 0 = NUL
           then m\<lparr>iter := int (cursor c m) + 1,
                  deviceList := (deviceList m)[cursor c m := Some (fst (GetModel c be d))]\<rparr>
           else m\<lparr>iter := int (cursor c m) + 1\<rparr>),
          (if \<not> reads_offline c d \<and> model d ! 0 = NUL
           then [getprop_argv d] else []))"
  using assms cursor_less [OF assms(1,2)] GetModel_started [OF assms(1), of be d]
  by (auto simp: NextDevice_def Let_def cursor_def mgr_ok_def reads_offline_def split: prod.splits)

lemma take_snoc_le: "n \<le> length xs \<Longrightarrow> take n (xs @ ys) = take n xs"
  by simp

lemma offline_memcmp:
  assumes c: "config_ok c" and t: "take 7 (state d) = ''offline''"
  shows "reads_offline c d"
proof -
  have le: "ptr_size c - 1 \<le> 7"
    using c by (auto simp: config_ok_def)
  have "take (ptr_size c - 1) (state d) = take (ptr_size c - 1) (take 7 (state d))"
    using le by (simp add: min_absorb1)
  also have "\<dots> = take (ptr_size c - 1) ''offline''"
    by (simp only: t)
  also have "\<dots> = take (ptr_size c - 1) (''offline'' @ [NUL])"
    using le by (intro take_snoc_le [symmetric]) simp
  finally show ?thesis
    by (simp only: memcmp_eq_def reads_offline_def)
qed

lemma NextDevice_step:
  assumes "config_ok c" "mgr_ok c m"
  shows "\<exists>r off' m' st. NextDevice c be m off = Inr (r, off', m', st) \<and> mgr_ok c m' \<and> same_states m m' \<and>
           (\<forall>j d. r = Some j \<longrightarrow> deviceList m ! j = Some d \<longrightarrow> offline_state d \<longrightarrow> off' = 1 \<and> st = []) \<and>
           (\<forall>j d. deviceList m ! j = Some d \<longrightarrow> model d ! 0 \<noteq> NUL \<longrightarrow>
                deviceList m' ! j = Some d \<and> (r = Some j \<longrightarrow> st = []))"
proof (cases "deviceList m ! cursor c m")
  case None
  from NextDevice_empty [OF assms None, of be off] assms(2) show ?thesis
    by (auto simp: mgr_ok_def same_states_def)
next
  case (Some d)
  have lt: "cursor c m < length (deviceList m)"
    using cursor_less [OF assms] assms(2) by (simp add: mgr_ok_def)
  have ss: "map (map_option (\<lambda>d. (serial d, state d))) ((deviceList m)[cursor c m := Some (fst (GetModel c be d))]) =
            map (map_option (\<lambda>d. (serial d, state d))) (deviceList m)"
    using lt Some by (simp add: map_update GetModel_fields list_update_same_conv)
  show ?thesis
    using NextDevice_device [OF assms Some, of be off] assms(2) Some lt ss
      offline_memcmp [OF assms(1), of d]
    by (auto simp: mgr_ok_def same_states_def offline_state_def nth_list_update)
qed


lemma same_states_nth:
  assumes "same_states m0 m" "deviceList m0 ! j = Some d0" "j < length (deviceList m0)"
  shows "\<exists>d. deviceList m ! j = Some d \<and> state d = state d0 \<and> serial d = serial d0"
proof -
  from assms(1) have e: "map (map_option (\<lambda>d. (serial d, state d))) (deviceList m) =
     map (map_option (\<lambda>d. (serial d, state d))) (deviceList m0)"
    by (simp add: same_states_def)
  then have l: "length (deviceList m) = length (deviceList m0)"
    by (rule map_eq_imp_length_eq)
  from e have "map (map_option (\<lambda>d. (serial d, state d))) (deviceList m) ! j =
     map (map_option (\<lambda>d. (serial d, state d))) (deviceList m0) ! j" by simp
  with l assms(2,3) show ?thesis by auto
qed

lemma same_states_trans: "same_states a b \<Longrightarrow> same_states b c \<Longrightarrow> same_states a c"
  by (simp add: same_states_def)

lemma NextDevice_slot_range:
  "NextDevice c be m off = Inr (Some j, off', m', st) \<Longrightarrow> j < length (deviceList m)"
  by (auto simp: NextDevice_def Let_def split: if_splits option.splits prod.splits)

lemma NextDevice_calls_offline:
  assumes c: "config_ok c"
  shows "mgr_ok c m \<Longrightarrow> same_states m0 m \<Longrightarrow>
     \<exists>rs m' off'. NextDevice_calls c bes m off = Inr (rs, m', off') \<and> length rs = length bes \<and>
        mgr_ok c m' \<and> same_states m0 m' \<and>
        (\<forall>(r, off'', st) \<in> set rs. \<forall>j d. r = Some j \<longrightarrow> deviceList m0 ! j = Some d \<longrightarrow>
            offline_state d \<longrightarrow> off'' = 1 \<and> st = [])"
proof (induction bes arbitrary: m off)
  case Nil
  then show ?case by simp
next
  case (Cons be bes)
  from NextDevice_step [OF c Cons.prems(1), of be off]
  obtain r off1 m1 st where
    nd: "NextDevice c be m off = Inr (r, off1, m1, st)" and ok1: "mgr_ok c m1" and ss1: "same_states m m1"
    and offl: "\<And>j d. r = Some j \<Longrightarrow> deviceList m ! j = Some d \<Longrightarrow> offline_state d \<Longrightarrow> off1 = 1 \<and> st = []"
    by blast
  from Cons.IH [OF ok1 same_states_trans [OF Cons.prems(2) ss1], of off1]
  obtain rs m' off' where
    run: "NextDevice_calls c bes m1 off1 = Inr (rs, m', off')" and len: "length rs = length bes"
    and ok': "mgr_ok c m'" and ss: "same_states m0 m'"
    and rest: "\<forall>(r, off'', st) \<in> set rs. \<forall>j d. r = Some j \<longrightarrow> deviceList m0 ! j = Some d \<longrightarrow>
            offline_state d \<longrightarrow> off'' = 1 \<and> st = []"
    by blast
  have l0: "length (deviceList m0) = length (deviceList m)"
    using Cons.prems(2) by (auto simp: same_states_def dest: map_eq_imp_length_eq)
  have first: "off1 = 1 \<and> st = []"
    if "r = Some j" "deviceList m0 ! j = Some d" "offline_state d" for j d
  proof -
    from nd that(1) have "j < length (deviceList m)" by (auto dest: NextDevice_slot_range)
    with same_states_nth [OF Cons.prems(2) that(2)] l0
    obtain d' where "deviceList m ! j = Some d'" "state d' = state d" by auto
    with offl [OF that(1), of d'] that(3) show ?thesis by (simp add: offline_state_def)
  qed
  show ?case
    using nd run len ok' ss rest first by auto
qed

lemma NextDevice_at_offline:
  assumes c: "config_ok c" and ok: "mgr_ok c m'" and ss: "same_states m m'"
    and d: "deviceList m ! cursor c m' = Some d" and o: "offline_state d"
  shows "NextDevice c be m' off = Inr (Some (cursor c m'), 1, m'\<lparr>iter := int (cursor c m') + 1\<rparr>, [])"
proof -
  from ss have "length (deviceList m) = length (deviceList m')"
    by (auto simp: same_states_def dest: map_eq_imp_length_eq)
  with cursor_less [OF c ok] ok have lt: "cursor c m' < length (deviceList m)"
    by (simp add: mgr_ok_def)
  from same_states_nth [OF ss d lt] obtain d'
    where d': "deviceList m' ! cursor c m' = Some d'" and st: "state d' = state d"
    by blast
  from o st have "take 7 (state d') = ''offline''"
    by (simp add: offline_state_def)
  then have r: "reads_offline c d'" by (rule offline_memcmp [OF c])
  from NextDevice_device [OF c ok d', of be off] r show ?thesis
    by simp
qed

lemma NextDevice_calls_resolved:
  assumes c: "config_ok c"
  shows "mgr_ok c m \<Longrightarrow> deviceList m ! j = Some d \<Longrightarrow> model d ! 0 \<noteq> NUL \<Longrightarrow>
     \<exists>rs m' off'. NextDevice_calls c bes m off = Inr (rs, m', off') \<and> length rs = length bes \<and>
        deviceList m' ! j = Some d \<and> (\<forall>(r, off'', st) \<in> set rs. r = Some j \<longrightarrow> st = [])"
proof (induction bes arbitrary: m off)
  case Nil
  then show ?case by simp
next
  case (Cons be bes)
  from NextDevice_step [OF c Cons.prems(1), of be off]
  obtain r off1 m1 st where
    nd: "NextDevice c be m off = Inr (r, off1, m1, st)" and ok1: "mgr_ok c m1"
    and keep: "\<And>j d. deviceList m ! j = Some d \<Longrightarrow> model d ! 0 \<noteq> NUL \<Longrightarrow>
                deviceList m1 ! j = Some d \<and> (r = Some j \<longrightarrow> st = [])"
    by blast
  from keep [OF Cons.prems(2,3)] have k1: "deviceList m1 ! j = Some d" and k2: "r = Some j \<longrightarrow> st = []"
    by auto
  from Cons.IH [OF ok1 k1 Cons.prems(3), of off1]
  obtain rs m' off' where
    run: "NextDevice_calls c bes m1 off1 = Inr (rs, m', off')" and len: "length rs = length bes"
    and fin: "deviceList m' ! j = Some d" and rest: "\<forall>(r, off'', st) \<in> set rs. r = Some j \<longrightarrow> st = []"
    by blast
  show ?case
    using nd run len fin rest k2 by auto
qed


lemma NextDevice_iter:
  assumes "config_ok c" "mgr_ok c m"
  shows "\<exists>off' m' st. NextDevice c be m off =
            Inr (if deviceList m ! cursor c m = None then None else Some (cursor c m), off', m', st) \<and>
          mgr_ok c m' \<and> populated m' = populated m \<and>
          iter m' = (if deviceList m ! cursor c m = None then int (cursor c m) else int (cursor c m) + 1)"
proof (cases "deviceList m ! cursor c m")
  case None
  from NextDevice_empty [OF assms None, of be off] assms(2) None show ?thesis
    by (auto simp: mgr_ok_def populated_def)
next
  case (Some d)
  have lt: "cursor c m < length (deviceList m)"
    using cursor_less [OF assms] assms(2) by (simp add: mgr_ok_def)
  have pp: "map (\<lambda>x. x \<noteq> None) ((deviceList m)[cursor c m := Some d']) = map (\<lambda>x. x \<noteq> None) (deviceList m)" for d'
    using lt Some by (simp add: map_update list_update_same_conv)
  show ?thesis
    using NextDevice_device [OF assms Some, of be off] assms(2) Some pp
    by (auto simp: mgr_ok_def populated_def)
qed

lemma populated_nth:
  "populated m' = populated m \<Longrightarrow> j < length (deviceList m) \<Longrightarrow>
     (deviceList m' ! j = None) = (deviceList m ! j = None)"
proof -
  assume e: "populated m' = populated m" and j: "j < length (deviceList m)"
  from e have l: "length (deviceList m') = length (deviceList m)"
    unfolding populated_def by (rule map_eq_imp_length_eq)
  from e have "populated m' ! j = populated m ! j" by simp
  with l j show ?thesis by (auto simp: populated_def)
qed

lemma NextDevice_calls_full:
  assumes c: "config_ok c"
  shows "mgr_ok c m \<Longrightarrow> \<forall>j < DEVICES_LIMIT c. deviceList m ! j \<noteq> None \<Longrightarrow>
     \<exists>rs m' off'. NextDevice_calls c bes m off = Inr (rs, m', off') \<and>
        map fst rs = map (\<lambda>i. Some ((cursor c m + i) mod DEVICES_LIMIT c)) [0..<length bes] \<and>
        cursor c m' = (cursor c m + length bes) mod DEVICES_LIMIT c \<and> populated m' = populated m"
proof (induction bes arbitrary: m off)
  case Nil
  then show ?case using cursor_less [OF c] by simp
next
  case (Cons be bes)
  let ?L = "DEVICES_LIMIT c"
  have lt: "cursor c m < ?L" by (rule cursor_less [OF c Cons.prems(1)])
  with Cons.prems(2) have ne: "deviceList m ! cursor c m \<noteq> None" by simp
  from NextDevice_iter [OF c Cons.prems(1), of be off] ne
  obtain off1 m1 st where
    nd: "NextDevice c be m off = Inr (Some (cursor c m), off1, m1, st)" and ok1: "mgr_ok c m1"
    and pop: "populated m1 = populated m" and it: "iter m1 = int (cursor c m) + 1"
    by auto
  have len: "length (deviceList m) = ?L" using Cons.prems(1) by (simp add: mgr_ok_def)
  have full1: "\<forall>j < ?L. deviceList m1 ! j \<noteq> None"
    using Cons.prems(2) populated_nth [OF pop] len by simp
  have cur1: "cursor c m1 = Suc (cursor c m) mod ?L"
  proof (cases "Suc (cursor c m) = ?L")
    case True
    then have "iter m1 = int ?L" using it by simp
    then show ?thesis using True by (simp add: cursor_def)
  next
    case False
    with lt have "Suc (cursor c m) < ?L" by simp
    then show ?thesis using it by (simp add: cursor_def nat_add_distrib)
  qed
  from Cons.IH [OF ok1 full1, of off1]
  obtain rs m' off' where
    run: "NextDevice_calls c bes m1 off1 = Inr (rs, m', off')"
    and res: "map fst rs = map (\<lambda>i. Some ((cursor c m1 + i) mod ?L)) [0..<length bes]"
    and fin: "cursor c m' = (cursor c m1 + length bes) mod ?L"
    and pop': "populated m' = populated m1"
    by blast
  have "map (\<lambda>i. Some ((cursor c m + i) mod ?L)) [0..<length (be # bes)] =
        Some (cursor c m) # map (\<lambda>i. Some ((cursor c m + Suc i) mod ?L)) [0..<length bes]"
    using lt by (simp add: map_upt_Suc del: upt_Suc)
  also have "map (\<lambda>i. Some ((cursor c m + Suc i) mod ?L)) [0..<length bes] =
             map (\<lambda>i. Some ((cursor c m1 + i) mod ?L)) [0..<length bes]"
    by (simp add: cur1 mod_add_left_eq)
  finally show ?case
    using nd run res fin pop pop' by (simp add: cur1 mod_add_left_eq)
qed

lemma NextDevice_calls_prefix:
  assumes c: "config_ok c" and k: "k < DEVICES_LIMIT c"
  shows "mgr_ok c m \<Longrightarrow> \<forall>j < k. deviceList m ! j \<noteq> None \<Longrightarrow> deviceList m ! k = None \<Longrightarrow>
     iter m \<le> int k \<Longrightarrow>
     \<exists>rs m' off'. NextDevice_calls c bes m off = Inr (rs, m', off') \<and>
        map fst rs = map Some [nat (iter m)..<min (nat (iter m) + length bes) k] @
                       replicate (nat (iter m) + length bes - k) None \<and>
        iter m' = int (min (nat (iter m) + length bes) k) \<and> populated m' = populated m"
proof (induction bes arbitrary: m off)
  case Nil
  then show ?case by (auto simp: mgr_ok_def)
next
  case (Cons be bes)
  let ?a = "nat (iter m)"
  have a: "?a \<le> k" "int ?a = iter m" using Cons.prems(1,4) by (auto simp: mgr_ok_def)
  have cur: "cursor c m = ?a" using a k by (auto simp: cursor_def)
  have len: "length (deviceList m) = DEVICES_LIMIT c" using Cons.prems(1) by (simp add: mgr_ok_def)
  from NextDevice_iter [OF c Cons.prems(1), of be off]
  obtain off1 m1 st where
    nd: "NextDevice c be m off =
            Inr (if deviceList m ! ?a = None then None else Some ?a, off1, m1, st)"
    and ok1: "mgr_ok c m1" and pop: "populated m1 = populated m"
    and it: "iter m1 = (if deviceList m ! ?a = None then int ?a else int ?a + 1)"
    unfolding cur by blast
  have p1: "\<forall>j < k. deviceList m1 ! j \<noteq> None"
    using Cons.prems(2) populated_nth [OF pop] len k by simp
  have p2: "deviceList m1 ! k = None"
    using Cons.prems(3) populated_nth [OF pop] len k by simp
  show ?case
  proof (cases "?a < k")
    case True
    with Cons.prems(2) have ne: "deviceList m ! ?a \<noteq> None" by simp
    with it have it1: "iter m1 = int ?a + 1" by simp
    then have le1: "iter m1 \<le> int k" and n1: "nat (iter m1) = Suc ?a" using True by auto
    from Cons.IH [OF ok1 p1 p2 le1, of off1]
    obtain rs m' off' where
      run: "NextDevice_calls c bes m1 off1 = Inr (rs, m', off')"
      and res: "map fst rs = map Some [Suc ?a..<min (Suc ?a + length bes) k] @
                       replicate (Suc ?a + length bes - k) None"
      and fin: "iter m' = int (min (Suc ?a + length bes) k)"
      and pop': "populated m' = populated m1"
      unfolding n1 by blast
    have "[?a..<min (?a + length (be # bes)) k] = ?a # [Suc ?a..<min (Suc ?a + length bes) k]"
      using True by (simp add: upt_conv_Cons)
    then show ?thesis
      using nd run res fin ne pop pop' by simp
  next
    case False
    with a have ak: "?a = k" by simp
    with Cons.prems(3) have e: "deviceList m ! ?a = None" by simp
    with it have it1: "iter m1 = int k" using ak by simp
    then have le1: "iter m1 \<le> int k" and n1: "nat (iter m1) = k" by auto
    from Cons.IH [OF ok1 p1 p2 le1, of off1]
    obtain rs m' off' where
      run: "NextDevice_calls c bes m1 off1 = Inr (rs, m', off')"
      and res: "map fst rs = map Some [k..<min (k + length bes) k] @
                       replicate (k + length bes - k) None"
      and fin: "iter m' = int (min (k + length bes) k)"
      and pop': "populated m' = populated m1"
      unfolding n1 by blast
    show ?thesis
      using nd run res fin e ak pop pop' by (simp add: replicate_Suc [symmetric] del: replicate_Suc)
  qed
qed

lemma populated_prefix:
  assumes "populated m = replicate k True @ replicate (n - k) False" and "k \<le> n"
  shows "length (deviceList m) = n" and "\<forall>j<k. deviceList m ! j \<noteq> None"
    and "\<forall>j. k \<le> j \<and> j < n \<longrightarrow> deviceList m ! j = None"
proof -
  from assms have "length (populated m) = n" by simp
  then show l: "length (deviceList m) = n" by (simp add: populated_def)
  have nth: "populated m ! j = (deviceList m ! j \<noteq> None)" if "j < n" for j
    using that l by (simp add: populated_def)
  show "\<forall>j<k. deviceList m ! j \<noteq> None"
  proof (intro allI impI)
    fix j assume "j < k"
    with assms nth [of j] show "deviceList m ! j \<noteq> None" by (simp add: nth_append)
  qed
  show "\<forall>j. k \<le> j \<and> j < n \<longrightarrow> deviceList m ! j = None"
  proof (intro allI impI)
    fix j assume j: "k \<le> j \<and> j < n"
    then have "j - k < n - k" by arith
    then have "replicate (n - k) False ! (j - k) = False" by (rule nth_replicate)
    with j assms nth [of j] show "deviceList m ! j = None" by (simp add: nth_append)
  qed
qed

text \<open>
  C4. On a registry with its \<^verbatim>\<open>DEVICES_LIMIT\<close> slots and a cursor that is not negative:
  \<^item> a \<open>NextDevice\<close> call that finds at the cursor a device whose state buffer begins
    with the bytes \<^verbatim>\<open>offline\<close> returns that device, sets \<^verbatim>\<open>*is_offline\<close> to 1, starts no
    command, and changes nothing in the registry but the cursor;
  \<^item> in any sequence of \<open>NextDevice\<close> calls with no \<open>Reload\<close> between them, every call
    returns, and every call that returns a device whose state buffer begins with
    \<^verbatim>\<open>offline\<close> sets \<^verbatim>\<open>*is_offline\<close> to 1 and starts no command, however often the
    device is visited;
  \<^item> the calls leave the serial and state of every slot as they were, so after any
    such sequence the next call that finds at the cursor a slot whose device was
    stored with a state that begins with \<^verbatim>\<open>offline\<close> again returns it with
    \<^verbatim>\<open>*is_offline\<close> 1 and no command: this lasts until a \<open>Reload\<close> stores another
    state.
\<close>

theorem NextDevice_offline_no_resolution:
  assumes "config_ok c" and "mgr_ok c m"
  shows "(\<forall>d. deviceList m ! cursor c m = Some d \<longrightarrow> offline_state d \<longrightarrow>
            NextDevice c be m off = Inr (Some (cursor c m), 1, m\<lparr>iter := int (cursor c m) + 1\<rparr>, [])) \<and>
         (\<exists>rs m' off'. NextDevice_calls c bes m off = Inr (rs, m', off') \<and> length rs = length bes \<and>
           same_states m m' \<and>
           (\<forall>(r, off'', st) \<in> set rs. \<forall>j d. r = Some j \<longrightarrow> deviceList m ! j = Some d \<longrightarrow>
               offline_state d \<longrightarrow> off'' = 1 \<and> st = []) \<and>
           (\<forall>d be'. deviceList m ! cursor c m' = Some d \<longrightarrow> offline_state d \<longrightarrow>
               NextDevice c be' m' off' =
                 Inr (Some (cursor c m'), 1, m'\<lparr>iter := int (cursor c m') + 1\<rparr>, [])))"
proof (rule conjI)
  have s0: "same_states m m" by (simp add: same_states_def)
  show "\<forall>d. deviceList m ! cursor c m = Some d \<longrightarrow> offline_state d \<longrightarrow>
            NextDevice c be m off = Inr (Some (cursor c m), 1, m\<lparr>iter := int (cursor c m) + 1\<rparr>, [])"
    using NextDevice_at_offline [OF assms s0] by blast
  from NextDevice_calls_offline [OF assms s0, of bes off]
  obtain rs m' off' where run: "NextDevice_calls c bes m off = Inr (rs, m', off')"
    and len: "length rs = length bes" and ok': "mgr_ok c m'" and ss: "same_states m m'"
    and vis: "\<forall>(r, off'', st) \<in> set rs. \<forall>j d. r = Some j \<longrightarrow> deviceList m ! j = Some d \<longrightarrow>
               offline_state d \<longrightarrow> off'' = 1 \<and> st = []"
    by blast
  have nx: "\<forall>d be'. deviceList m ! cursor c m' = Some d \<longrightarrow> offline_state d \<longrightarrow>
               NextDevice c be' m' off' =
                 Inr (Some (cursor c m'), 1, m'\<lparr>iter := int (cursor c m') + 1\<rparr>, [])"
    using NextDevice_at_offline [OF assms(1) ok' ss] by blast
  from run len ss vis nx
  show "\<exists>rs m' off'. NextDevice_calls c bes m off = Inr (rs, m', off') \<and> length rs = length bes \<and>
           same_states m m' \<and>
           (\<forall>(r, off'', st) \<in> set rs. \<forall>j d. r = Some j \<longrightarrow> deviceList m ! j = Some d \<longrightarrow>
               offline_state d \<longrightarrow> off'' = 1 \<and> st = []) \<and>
           (\<forall>d be'. deviceList m ! cursor c m' = Some d \<longrightarrow> offline_state d \<longrightarrow>
               NextDevice c be' m' off' =
                 Inr (Some (cursor c m'), 1, m'\<lparr>iter := int (cursor c m') + 1\<rparr>, []))"
    by (intro exI conjI)
qed

theorem NextDevice_offline_no_resolution_witness:
  "config_ok small_config \<and> mgr_ok small_config mixed_mgr \<and>
   deviceList mixed_mgr ! 0 = Some (device_of ''ab'' ''offline'' []) \<and>
   offline_state (device_of ''ab'' ''offline'' []) \<and>
   NextDevice small_config (backend_ok ''Pixel'') mixed_mgr 0 =
     Inr (Some 0, 1,
          \<lparr>deviceList = [Some (device_of ''ab'' ''offline'' []), Some (device_of ''cd'' ''device'' [])],
           iter = 1\<rparr>, []) \<and>
   (\<exists>rs m' off'. NextDevice_calls small_config
        [backend_ok ''Pixel'', backend_ok ''Pixel'', backend_ok ''Pixel''] mixed_mgr 0 =
      Inr (rs, m', off') \<and> length rs = 3 \<and> same_states mixed_mgr m') \<and>
   NextDevice_calls small_config
     [backend_ok ''Pixel'', backend_ok ''Pixel'', backend_ok ''Pixel''] mixed_mgr 0 =
   Inr ([(Some 0, 1, []), (Some 1, 0, [getprop_argv (device_of ''cd'' ''device'' [])]), (Some 0, 1, [])],
        \<lparr>deviceList = [Some (device_of ''ab'' ''offline'' []), Some (device_of ''cd'' ''device'' ''Pixel'')],
         iter = 1\<rparr>, 1) \<and>
   NextDevice_calls small_config [backend_ok ''Pixel'', backend_ok ''Pixel''] mixed_mgr 0 =
   Inr ([(Some 0, 1, []), (Some 1, 0, [getprop_argv (device_of ''cd'' ''device'' [])])],
        \<lparr>deviceList = [Some (device_of ''ab'' ''offline'' []), Some (device_of ''cd'' ''device'' ''Pixel'')],
         iter = 2\<rparr>, 0) \<and>
   NextDevice small_config backend_down
     \<lparr>deviceList = [Some (device_of ''ab'' ''offline'' []), Some (device_of ''cd'' ''device'' ''Pixel'')],
      iter = 2\<rparr> 0 =
     Inr (Some 0, 1,
          \<lparr>deviceList = [Some (device_of ''ab'' ''offline'' []), Some (device_of ''cd'' ''device'' ''Pixel'')],
           iter = 1\<rparr>, [])"
proof -
  let ?b = "backend_ok ''Pixel''"
  let ?d = "device_of ''ab'' ''offline'' []"
  let ?M = "\<lparr>deviceList = [Some (device_of ''ab'' ''offline'' []), Some (device_of ''cd'' ''device'' ''Pixel'')],
      iter = 2\<rparr>"
  have c: "config_ok small_config"
    by (simp add: config_ok_def small_config_def)
  have ok: "mgr_ok small_config mixed_mgr"
    by (simp add: mgr_ok_def small_config_def mixed_mgr_def)
  have d: "deviceList mixed_mgr ! 0 = Some ?d"
    by (simp add: mixed_mgr_def)
  have o: "offline_state ?d"
    by (simp add: offline_state_def device_of_def)
  have cur: "deviceList mixed_mgr ! cursor small_config mixed_mgr = Some ?d"
    by (simp add: cursor_def mixed_mgr_def small_config_def)
  have ev: "NextDevice_calls small_config [?b, ?b, ?b] mixed_mgr 0 =
   Inr ([(Some 0, 1, []), (Some 1, 0, [getprop_argv (device_of ''cd'' ''device'' [])]), (Some 0, 1, [])],
        \<lparr>deviceList = [Some (device_of ''ab'' ''offline'' []), Some (device_of ''cd'' ''device'' ''Pixel'')],
         iter = 1\<rparr>, 1)"
    by code_simp
  have ev2: "NextDevice_calls small_config [?b, ?b] mixed_mgr 0 =
   Inr ([(Some 0, 1, []), (Some 1, 0, [getprop_argv (device_of ''cd'' ''device'' [])])], ?M, 0)"
    by code_simp
  have cur2: "deviceList mixed_mgr ! cursor small_config ?M = Some ?d"
    by (simp add: cursor_def mixed_mgr_def small_config_def)
  note t1 = NextDevice_offline_no_resolution [OF c ok, where be = ?b and off = 0 and bes = "[?b, ?b, ?b]"]
  from conjunct1 [OF t1, rule_format, OF cur o]
  have "NextDevice small_config ?b mixed_mgr 0 =
          Inr (Some (cursor small_config mixed_mgr), 1,
               mixed_mgr\<lparr>iter := int (cursor small_config mixed_mgr) + 1\<rparr>, [])" .
  also have "\<dots> = Inr (Some 0, 1,
          \<lparr>deviceList = [Some (device_of ''ab'' ''offline'' []), Some (device_of ''cd'' ''device'' [])],
           iter = 1\<rparr>, [])"
    by code_simp
  finally have a: "NextDevice small_config ?b mixed_mgr 0 =
     Inr (Some 0, 1,
          \<lparr>deviceList = [Some (device_of ''ab'' ''offline'' []), Some (device_of ''cd'' ''device'' [])],
           iter = 1\<rparr>, [])" .
  from conjunct2 [OF t1]
  have b: "\<exists>rs m' off'. NextDevice_calls small_config [?b, ?b, ?b] mixed_mgr 0 =
      Inr (rs, m', off') \<and> length rs = 3 \<and> same_states mixed_mgr m'"
    by auto
  note t2 = NextDevice_offline_no_resolution [OF c ok, where be = ?b and off = 0 and bes = "[?b, ?b]"]
  from conjunct2 [OF t2] obtain rs m' off'
    where run: "NextDevice_calls small_config [?b, ?b] mixed_mgr 0 = Inr (rs, m', off')"
      and nx: "\<forall>d be'. deviceList mixed_mgr ! cursor small_config m' = Some d \<longrightarrow> offline_state d \<longrightarrow>
               NextDevice small_config be' m' off' =
                 Inr (Some (cursor small_config m'), 1, m'\<lparr>iter := int (cursor small_config m') + 1\<rparr>, [])"
    by blast
  from run ev2 have m': "m' = ?M" and off': "off' = 0" by simp_all
  from nx [rule_format, of ?d backend_down] cur2 o
  have "NextDevice small_config backend_down ?M 0 =
          Inr (Some (cursor small_config ?M), 1, ?M\<lparr>iter := int (cursor small_config ?M) + 1\<rparr>, [])"
    unfolding m' off' by blast
  also have "\<dots> = Inr (Some 0, 1,
          \<lparr>deviceList = [Some (device_of ''ab'' ''offline'' []), Some (device_of ''cd'' ''device'' ''Pixel'')],
           iter = 1\<rparr>, [])"
    by code_simp
  finally have e: "NextDevice small_config backend_down ?M 0 =
     Inr (Some 0, 1,
          \<lparr>deviceList = [Some (device_of ''ab'' ''offline'' []), Some (device_of ''cd'' ''device'' ''Pixel'')],
           iter = 1\<rparr>, [])" .
  from c ok d o a b ev ev2 e show ?thesis by blast
qed

text \<open>
  C3, as the code has it. The first \<open>k\<close> slots hold records and the others are empty
  (\<open>0 < k\<close>, \<open>k\<close> at most \<^verbatim>\<open>DEVICES_LIMIT\<close>), the cursor is 0, and \<open>NextDevice\<close> is called
  any number of times with no \<open>Reload\<close> between the calls. Every call returns, and the
  slots in use stay the same. If all \<^verbatim>\<open>DEVICES_LIMIT\<close> slots are in use, call number \<open>i\<close>
  (from 0) returns the record of slot \<open>i mod DEVICES_LIMIT\<close>: the cursor wraps to 0 when
  it reaches the limit and the devices repeat in slot order. If fewer slots are in
  use, the first \<open>k\<close> calls return the records of slots 0 up to \<open>k - 1\<close> and every later
  call returns null, with the cursor staying at slot \<open>k\<close>.
\<close>

theorem NextDevice_iteration_order:
  assumes "config_ok c" and "mgr_ok c m" and "iter m = 0" and "0 < k" and "k \<le> DEVICES_LIMIT c"
    and "populated m = replicate k True @ replicate (DEVICES_LIMIT c - k) False"
  shows "\<exists>rs m' off'. NextDevice_calls c bes m off = Inr (rs, m', off') \<and> populated m' = populated m \<and>
           (k = DEVICES_LIMIT c \<longrightarrow>
              map fst rs = map (\<lambda>i. Some (i mod DEVICES_LIMIT c)) [0..<length bes] \<and>
              cursor c m' = length bes mod DEVICES_LIMIT c) \<and>
           (k < DEVICES_LIMIT c \<longrightarrow>
              map fst rs = map Some [0..<min (length bes) k] @ replicate (length bes - k) None \<and>
              iter m' = int (min (length bes) k))"
proof (cases "k = DEVICES_LIMIT c")
  case True
  note pre = populated_prefix [OF assms(6,5)]
  have cur: "cursor c m = 0"
    using assms(1,3) by (simp add: cursor_def config_ok_def)
  from NextDevice_calls_full [OF assms(1,2), of bes off] pre(2) True
  show ?thesis by (auto simp: cur)
next
  case False
  with assms(5) have lt: "k < DEVICES_LIMIT c" by simp
  note pre = populated_prefix [OF assms(6,5)]
  from pre(3) lt have e: "deviceList m ! k = None" by simp
  have le: "iter m \<le> int k" using assms(3) by simp
  from NextDevice_calls_prefix [OF assms(1) lt assms(2) pre(2) e le, of bes off] lt assms(3)
  show ?thesis by auto
qed

theorem NextDevice_iteration_order_witness:
  "config_ok small_config \<and> mgr_ok small_config mixed_mgr \<and> iter mixed_mgr = 0 \<and>
   populated mixed_mgr = [True, True] \<and>
   (\<exists>rs m' off'. NextDevice_calls small_config [backend_down, backend_down, backend_down] mixed_mgr 0 =
        Inr (rs, m', off') \<and> map fst rs = [Some 0, Some 1, Some 0] \<and> cursor small_config m' = 1) \<and>
   mgr_ok small_config half_mgr \<and> iter half_mgr = 0 \<and> populated half_mgr = [True, False] \<and>
   (\<exists>rs m' off'. NextDevice_calls small_config [backend_down, backend_down, backend_down] half_mgr 0 =
        Inr (rs, m', off') \<and> map fst rs = [Some 0, None, None] \<and> iter m' = 1)"
proof -
  have c: "config_ok small_config"
    by (simp add: config_ok_def small_config_def)
  have L: "DEVICES_LIMIT small_config = 2"
    by (simp add: small_config_def)
  have ok: "mgr_ok small_config mixed_mgr" "mgr_ok small_config half_mgr"
    by (simp_all add: mgr_ok_def small_config_def mixed_mgr_def half_mgr_def)
  have it: "iter mixed_mgr = 0" "iter half_mgr = 0"
    by (simp_all add: mixed_mgr_def half_mgr_def)
  have pm: "populated mixed_mgr = [True, True]"
    by (simp add: populated_def mixed_mgr_def)
  have ph: "populated half_mgr = [True, False]"
    by (simp add: populated_def half_mgr_def)
  have pm': "populated mixed_mgr = replicate 2 True @ replicate (DEVICES_LIMIT small_config - 2) False"
    by (simp add: pm L numeral_2_eq_2)
  have ph': "populated half_mgr = replicate 1 True @ replicate (DEVICES_LIMIT small_config - 1) False"
    by (simp add: ph L)
  have k: "(0::nat) < 2" "2 \<le> DEVICES_LIMIT small_config" "(0::nat) < 1" "1 \<le> DEVICES_LIMIT small_config"
    by (simp_all add: L)
  have u: "[0..<3] = [0, 1, 2]" "[0..<min 3 1] = [0]"
    by (simp_all add: upt_rec)
  from NextDevice_iteration_order [OF c ok(1) it(1) k(1,2) pm',
      of "[backend_down, backend_down, backend_down]" 0]
  have a: "\<exists>rs m' off'. NextDevice_calls small_config [backend_down, backend_down, backend_down] mixed_mgr 0 =
        Inr (rs, m', off') \<and> map fst rs = [Some 0, Some 1, Some 0] \<and> cursor small_config m' = 1"
    by (auto simp: L u)
  from NextDevice_iteration_order [OF c ok(2) it(2) k(3,4) ph',
      of "[backend_down, backend_down, backend_down]" 0]
  have b: "\<exists>rs m' off'. NextDevice_calls small_config [backend_down, backend_down, backend_down] half_mgr 0 =
        Inr (rs, m', off') \<and> map fst rs = [Some 0, None, None] \<and> iter m' = 1"
    by (auto simp: L u numeral_2_eq_2)
  from c ok it pm ph a b show ?thesis by blast
qed

text \<open>
  One slot of two in use: two calls, as many as \<^verbatim>\<open>DEVICES_LIMIT\<close>, return the device and
  then null, not the device twice; and two further calls return null again, so the
  device does not come back.
\<close>

theorem NextDevice_no_repeat_counterexample:
  "NextDevice_calls small_config [backend_down, backend_down] half_mgr 0 =
     Inr ([(Some 0, 0, []), (None, 0, [])], half_mgr\<lparr>iter := 1\<rparr>, 0) \<and>
   NextDevice_calls small_config [backend_down, backend_down] (half_mgr\<lparr>iter := 1\<rparr>) 0 =
     Inr ([(None, 0, []), (None, 0, [])], half_mgr\<lparr>iter := 1\<rparr>, 0)"
  by code_simp

section \<open>What Reload writes\<close>

lemma body_shape:
  assumes "Reload_body c p (i, dl) = Inr x"
  shows "x = Continue (i, dl) \<or> x = Break (i, dl) \<or>
         (i < length dl \<and>
          (\<exists>s t. x = (if Suc i = DEVICES_LIMIT c then Break else Continue)
                    (Suc i, dl[i := Some \<lparr>serial = s, state = t, model = memset0 (model_size c)\<rparr>])))"
  using assms unfolding Reload_body_def Let_def
  by (simp split: if_splits option.splits) blast+

lemma wrote_cleared_refl: "wrote_cleared c i i dl dl"
  by (auto simp: wrote_cleared_def)

lemma wrote_cleared_step:
  assumes "i < length dl" and "model r = memset0 (model_size c)"
  shows "wrote_cleared c i (Suc i) dl (dl[i := Some r])"
  unfolding wrote_cleared_def
proof (intro conjI allI impI)
  show "length (dl[i := Some r]) = length dl" by simp
  show "i \<le> Suc i" by simp
  show "Suc i \<le> length dl" using assms(1) by simp
next
  fix j assume "i \<le> j \<and> j < Suc i"
  then have "j = i" by simp
  with assms show "\<exists>d. dl[i := Some r] ! j = Some d \<and> model d = memset0 (model_size c)" by simp
next
  fix j assume "j < i \<or> Suc i \<le> j"
  then have "i \<noteq> j" by auto
  then show "dl[i := Some r] ! j = dl ! j" by (rule nth_list_update_neq)
qed

lemma wrote_cleared_trans:
  assumes a: "wrote_cleared c i i1 dl dl1" and b: "wrote_cleared c i1 i2 dl1 dl2"
  shows "wrote_cleared c i i2 dl dl2"
proof -
  from a have a1: "length dl1 = length dl" and a2: "i \<le> i1" and a3: "i \<le> length dl \<longrightarrow> i1 \<le> length dl"
    and a4: "\<And>j. i \<le> j \<Longrightarrow> j < i1 \<Longrightarrow> \<exists>d. dl1 ! j = Some d \<and> model d = memset0 (model_size c)"
    and a5: "\<And>j. j < i \<or> i1 \<le> j \<Longrightarrow> dl1 ! j = dl ! j"
    unfolding wrote_cleared_def by blast+
  from b have b1: "length dl2 = length dl1" and b2: "i1 \<le> i2" and b3: "i1 \<le> length dl1 \<longrightarrow> i2 \<le> length dl1"
    and b4: "\<And>j. i1 \<le> j \<Longrightarrow> j < i2 \<Longrightarrow> \<exists>d. dl2 ! j = Some d \<and> model d = memset0 (model_size c)"
    and b5: "\<And>j. j < i1 \<or> i2 \<le> j \<Longrightarrow> dl2 ! j = dl1 ! j"
    unfolding wrote_cleared_def by blast+
  show ?thesis
    unfolding wrote_cleared_def
  proof (intro conjI allI impI)
    show "length dl2 = length dl" using a1 b1 by simp
    show "i \<le> i2" using a2 b2 by simp
    show "i2 \<le> length dl" if "i \<le> length dl" using that a1 a3 b3 by simp
  next
    fix j assume j: "i \<le> j \<and> j < i2"
    show "\<exists>d. dl2 ! j = Some d \<and> model d = memset0 (model_size c)"
    proof (cases "j < i1")
      case True
      with b5 [of j] have "dl2 ! j = dl1 ! j" by simp
      with a4 [of j] j True show ?thesis by simp
    next
      case False
      with b4 [of j] j show ?thesis by simp
    qed
  next
    fix j assume j: "j < i \<or> i2 \<le> j"
    with a2 b2 have "j < i1 \<or> i2 \<le> j" and "j < i \<or> i1 \<le> j" by auto
    with a5 [of j] b5 [of j] show "dl2 ! j = dl ! j" by simp
  qed
qed

lemma body_wrote:
  assumes "Reload_body c p (i, dl) = Inr x" and "x = Continue (i', dl') \<or> x = Break (i', dl')"
  shows "wrote_cleared c i i' dl dl'"
proof -
  from body_shape [OF assms(1)]
  consider "x = Continue (i, dl) \<or> x = Break (i, dl)"
    | s t where "i < length dl"
        "x = (if Suc i = DEVICES_LIMIT c then Break else Continue)
               (Suc i, dl[i := Some \<lparr>serial = s, state = t, model = memset0 (model_size c)\<rparr>])"
    by blast
  then show ?thesis
  proof cases
    case 1
    with assms(2) have "i' = i" "dl' = dl" by auto
    then show ?thesis by (simp add: wrote_cleared_refl)
  next
    case 2
    with assms(2) have "i' = Suc i"
      "dl' = dl[i := Some \<lparr>serial = s, state = t, model = memset0 (model_size c)\<rparr>]"
      by (auto split: if_splits)
    with 2(1) show ?thesis by (simp add: wrote_cleared_step)
  qed
qed

lemma loop_wrote:
  "Reload_loop c p n st = Inr st' \<Longrightarrow> wrote_cleared c (fst st) (fst st') (snd st) (snd st')"
proof (induction c p n st rule: Reload_loop.induct)
  case (1 c p n st)
  obtain i dl where st: "st = (i, dl)" by (cases st)
  show ?case
  proof (cases "Reload_body c p st")
    case (Inl f)
    with "1.prems" show ?thesis by (simp add: Reload_loop.simps [of c p n st])
  next
    case (Inr x)
    show ?thesis
    proof (cases x)
      case (Break st1)
      with Inr "1.prems" have "st' = st1" by (simp add: Reload_loop.simps [of c p n st])
      with body_wrote [of c p i dl x "fst st1" "snd st1"] Inr Break st show ?thesis by simp
    next
      case (Continue st1)
      from body_wrote [of c p i dl x "fst st1" "snd st1"] Inr Continue st
      have r1: "wrote_cleared c (fst st) (fst st1) (snd st) (snd st1)" by simp
      show ?thesis
      proof (cases "strtok_r n")
        case None
        with Inr Continue "1.prems" have "st' = st1" by (simp add: Reload_loop.simps [of c p n st])
        with r1 show ?thesis by simp
      next
        case (Some pn)
        obtain p' n' where pn: "pn = (p', n')" by (cases pn)
        from Inr Continue Some pn "1.prems" have "Reload_loop c p' n' st1 = Inr st'"
          by (simp add: Reload_loop.simps [of c p n st])
        from "1.IH" [OF Inr Continue Some pn [symmetric] this] r1
        show ?thesis by (rule wrote_cleared_trans [rotated])
      qed
    qed
  qed
qed

lemma Reload_wrote:
  assumes "Reload c be m = Inr (True, m1)"
  shows "\<exists>p n i. strtok_r (c_str (captured (be [adb_exe, ''devices'']))) = Some (p, n) \<and>
           Reload_loop c p n (0, deviceList m) = Inr (i, deviceList m1) \<and>
           wrote_cleared c 0 i (deviceList m) (deviceList m1)"
proof -
  obtain p1 b1 l1 where e1: "adb_execute c be None [''reconnect'', ''offline''] = (p1, b1, l1)"
    by (cases "adb_execute c be None [''reconnect'', ''offline'']") auto
  obtain p2 b2 l2 where e2: "adb_execute c be None [''devices''] = (p2, b2, l2)"
    by (cases "adb_execute c be None [''devices'']") auto
  from assms e1 have s1: "process_check_success p1"
    by (auto simp: Reload_def split: if_splits)
  with assms e1 e2 have s2: "process_check_success p2"
    by (auto simp: Reload_def split: if_splits)
  from e2 s2 have buf: "b2 = captured (be [adb_exe, ''devices''])"
    by (auto simp: adb_execute_def process_check_success_def Let_def adb_exe_def split: if_splits)
  from assms e1 e2 s1 s2
  have r: "(case strtok_r (c_str b2) of None \<Rightarrow> Inl NullPointer
            | Some (p, n) \<Rightarrow> (case Reload_loop c p n (0, deviceList m) of Inl f \<Rightarrow> Inl f
                 | Inr (i, dl) \<Rightarrow> Inr (True, m\<lparr>deviceList := dl\<rparr>))) = Inr (True, m1)"
    by (simp add: Reload_def)
  then obtain p n where tok: "strtok_r (c_str b2) = Some (p, n)"
    by (cases "strtok_r (c_str b2)") auto
  with r obtain i dl where loop: "Reload_loop c p n (0, deviceList m) = Inr (i, dl)"
    and m1: "m1 = m\<lparr>deviceList := dl\<rparr>"
    by (cases "Reload_loop c p n (0, deviceList m)") auto
  from m1 have dl: "dl = deviceList m1" by simp
  from loop_wrote [OF loop] have "wrote_cleared c 0 i (deviceList m) dl" by simp
  with tok loop dl buf show ?thesis by auto
qed

lemma GetModel_failure:
  "\<not> cmd_succeeds be (getprop_argv d) \<Longrightarrow> fst (GetModel c be d) = d"
  by (auto simp: GetModel_def adb_execute_def Let_def process_check_success_def cmd_succeeds_def
      getprop_argv_def split: if_splits)

lemma GetModel_resolves:
  assumes "config_ok c" and "3 \<le> model_size c" and "cmd_succeeds be (getprop_argv d)"
    and "captured (be (getprop_argv d)) = x # xs" and "safe_char x"
  shows "model (fst (GetModel c be d)) ! 0 \<noteq> NUL"
proof -
  have "model_size c - 2 = Suc (model_size c - 3)"
    using assms(2) by arith
  then have "take (model_size c - 2) (x # xs) = x # take (model_size c - 3) xs"
    by simp
  with assms(5) have "takeWhile safe_char (take (model_size c - 2) (x # xs)) =
      x # takeWhile safe_char (take (model_size c - 3) xs)"
    by simp
  with GetModel_success [OF assms(3,4,1) [unfolded getprop_argv_def]]
  have "model (fst (GetModel c be d)) ! 0 = x" by simp
  moreover from assms(5) have "x \<noteq> NUL"
    by (auto simp: safe_char_def isalnum_def NUL_def SP_def)
  ultimately show ?thesis by simp
qed

text \<open>
  C2, as the code has it. On a registry with its \<^verbatim>\<open>DEVICES_LIMIT\<close> slots and a cursor
  that is not negative:
  \<^item> a device whose model field does not begin with a zero byte is never queried by
    any sequence of \<open>NextDevice\<close> calls with no \<open>Reload\<close> between them, and its record
    stays as it is;
  \<^item> a \<open>NextDevice\<close> call that finds at the cursor a device that does not read as
    offline and whose model field begins with a zero byte starts exactly the model
    query for that device's serial; when the query fails the record is unchanged (so
    the next such visit queries again), and when it succeeds with a text that begins
    with a safe character (and the model field has at least three bytes) the model
    field no longer begins with a zero byte;
  \<^item> a \<open>Reload\<close> that returns true has run its loop over the lines of the listing
    from slot 0 up to a slot index \<open>i\<close> within the table: every slot below \<open>i\<close>, that
    is every slot the loop wrote, holds a record whose model field is all zero (which
    begins with a zero byte), whatever it held before, and every other slot is as
    before.
\<close>

theorem model_resolution_policy:
  assumes "config_ok c" and "mgr_ok c m"
  shows "(\<forall>j d. deviceList m ! j = Some d \<longrightarrow> model d ! 0 \<noteq> NUL \<longrightarrow>
            (\<exists>rs m' off'. NextDevice_calls c bes m off = Inr (rs, m', off') \<and> length rs = length bes \<and>
               deviceList m' ! j = Some d \<and> (\<forall>(r, off'', st) \<in> set rs. r = Some j \<longrightarrow> st = []))) \<and>
         (\<forall>d. deviceList m ! cursor c m = Some d \<longrightarrow> \<not> reads_offline c d \<longrightarrow> model d ! 0 = NUL \<longrightarrow>
            NextDevice c be m off =
              Inr (Some (cursor c m), 0,
                   m\<lparr>iter := int (cursor c m) + 1,
                     deviceList := (deviceList m)[cursor c m := Some (fst (GetModel c be d))]\<rparr>,
                   [getprop_argv d]) \<and>
            (\<not> cmd_succeeds be (getprop_argv d) \<longrightarrow> fst (GetModel c be d) = d) \<and>
            (cmd_succeeds be (getprop_argv d) \<longrightarrow> 3 \<le> model_size c \<longrightarrow>
               captured (be (getprop_argv d)) \<noteq> [] \<longrightarrow> safe_char (hd (captured (be (getprop_argv d)))) \<longrightarrow>
               model (fst (GetModel c be d)) ! 0 \<noteq> NUL)) \<and>
         (\<forall>m1. Reload c be' m = Inr (True, m1) \<longrightarrow>
            (\<exists>p n i. strtok_r (c_str (captured (be' [adb_exe, ''devices'']))) = Some (p, n) \<and>
               Reload_loop c p n (0, deviceList m) = Inr (i, deviceList m1) \<and>
               i \<le> length (deviceList m) \<and> length (deviceList m1) = length (deviceList m) \<and>
               (\<forall>j<i. \<exists>d. deviceList m1 ! j = Some d \<and> model d = memset0 (model_size c) \<and>
                  model d ! 0 = NUL) \<and>
               (\<forall>j. i \<le> j \<longrightarrow> deviceList m1 ! j = deviceList m ! j)))"
proof (intro conjI allI impI)
  fix j d
  assume "deviceList m ! j = Some d" and "model d ! 0 \<noteq> NUL"
  then show "\<exists>rs m' off'. NextDevice_calls c bes m off = Inr (rs, m', off') \<and> length rs = length bes \<and>
               deviceList m' ! j = Some d \<and> (\<forall>(r, off'', st) \<in> set rs. r = Some j \<longrightarrow> st = [])"
    by (rule NextDevice_calls_resolved [OF assms])
next
  fix d
  assume "deviceList m ! cursor c m = Some d" and "\<not> reads_offline c d" and "model d ! 0 = NUL"
  then show "NextDevice c be m off =
              Inr (Some (cursor c m), 0,
                   m\<lparr>iter := int (cursor c m) + 1,
                     deviceList := (deviceList m)[cursor c m := Some (fst (GetModel c be d))]\<rparr>,
                   [getprop_argv d])"
    using NextDevice_device [OF assms, of d be off] by simp
next
  fix d
  assume "\<not> cmd_succeeds be (getprop_argv d)"
  then show "fst (GetModel c be d) = d" by (rule GetModel_failure)
next
  fix d
  assume s: "cmd_succeeds be (getprop_argv d)" and ms: "3 \<le> model_size c"
    and ne: "captured (be (getprop_argv d)) \<noteq> []" and sf: "safe_char (hd (captured (be (getprop_argv d))))"
  from ne obtain x xs where t: "captured (be (getprop_argv d)) = x # xs"
    by (cases "captured (be (getprop_argv d))") auto
  with sf have "safe_char x" by simp
  from GetModel_resolves [OF assms(1) ms s t this]
  show "model (fst (GetModel c be d)) ! 0 \<noteq> NUL" .
next
  fix m1
  assume "Reload c be' m = Inr (True, m1)"
  from Reload_wrote [OF this] obtain p n i
    where tok: "strtok_r (c_str (captured (be' [adb_exe, ''devices'']))) = Some (p, n)"
      and loop: "Reload_loop c p n (0, deviceList m) = Inr (i, deviceList m1)"
      and w: "wrote_cleared c 0 i (deviceList m) (deviceList m1)"
    by blast
  have z: "replicate (model_size c) NUL ! 0 = NUL"
    using assms(1) by (simp add: config_ok_def)
  from w have w1: "i \<le> length (deviceList m)" and w2: "length (deviceList m1) = length (deviceList m)"
    and w3: "\<And>j. j < i \<Longrightarrow> \<exists>d. deviceList m1 ! j = Some d \<and> model d = memset0 (model_size c)"
    and w4: "\<And>j. i \<le> j \<Longrightarrow> deviceList m1 ! j = deviceList m ! j"
    by (simp_all add: wrote_cleared_def)
  have w5: "\<forall>j<i. \<exists>d. deviceList m1 ! j = Some d \<and> model d = memset0 (model_size c) \<and> model d ! 0 = NUL"
  proof (intro allI impI)
    fix j assume "j < i"
    from w3 [OF this] obtain d where "deviceList m1 ! j = Some d" "model d = memset0 (model_size c)"
      by blast
    with z show "\<exists>d. deviceList m1 ! j = Some d \<and> model d = memset0 (model_size c) \<and> model d ! 0 = NUL"
      by (simp add: memset0_def)
  qed
  from w4 have w6: "\<forall>j. i \<le> j \<longrightarrow> deviceList m1 ! j = deviceList m ! j" by simp
  from tok loop w1 w2 w5 w6
  show "\<exists>p n i. strtok_r (c_str (captured (be' [adb_exe, ''devices'']))) = Some (p, n) \<and>
               Reload_loop c p n (0, deviceList m) = Inr (i, deviceList m1) \<and>
               i \<le> length (deviceList m) \<and> length (deviceList m1) = length (deviceList m) \<and>
               (\<forall>j<i. \<exists>d. deviceList m1 ! j = Some d \<and> model d = memset0 (model_size c) \<and>
                  model d ! 0 = NUL) \<and>
               (\<forall>j. i \<le> j \<longrightarrow> deviceList m1 ! j = deviceList m ! j)"
    by (intro exI conjI)
qed

theorem model_resolution_policy_witness:
  "config_ok small_config \<and> mgr_ok small_config half_mgr \<and> mgr_ok small_config mixed_mgr_at_1 \<and>
   deviceList half_mgr ! 0 = Some (device_of ''ab'' ''device'' ''Pixel'') \<and>
   model (device_of ''ab'' ''device'' ''Pixel'') ! 0 \<noteq> NUL \<and>
   (\<exists>rs m' off'. NextDevice_calls small_config [backend_down, backend_down] half_mgr 0 = Inr (rs, m', off') \<and>
      length rs = 2 \<and> deviceList m' ! 0 = Some (device_of ''ab'' ''device'' ''Pixel'')) \<and>
   deviceList mixed_mgr_at_1 ! cursor small_config mixed_mgr_at_1 = Some (device_of ''cd'' ''device'' []) \<and>
   \<not> reads_offline small_config (device_of ''cd'' ''device'' []) \<and>
   model (device_of ''cd'' ''device'' []) ! 0 = NUL \<and>
   NextDevice small_config (backend_ok ''Pixel'') mixed_mgr_at_1 0 =
     Inr (Some 1, 0,
          \<lparr>deviceList = [Some (device_of ''ab'' ''offline'' []), Some (device_of ''cd'' ''device'' ''Pixel'')],
           iter = 2\<rparr>,
          [[''adb'', ''-s'', ''cd'', ''shell'', ''getprop'', ''ro.product.model'']]) \<and>
   \<not> cmd_succeeds backend_down (getprop_argv (device_of ''cd'' ''device'' [])) \<and>
   fst (GetModel small_config backend_down (device_of ''cd'' ''device'' [])) = device_of ''cd'' ''device'' [] \<and>
   cmd_succeeds (backend_ok ''Pixel'') (getprop_argv (device_of ''cd'' ''device'' [])) \<and>
   model (fst (GetModel small_config (backend_ok ''Pixel'') (device_of ''cd'' ''device'' []))) ! 0 \<noteq> NUL \<and>
   Reload small_config (backend_ok one_device_listing) half_mgr =
     Inr (True, \<lparr>deviceList = [Some (device_of ''ab'' ''device'' []), None], iter = 0\<rparr>) \<and>
   Reload_loop small_config attached_header (''ab'' @ [TAB] @ ''device'' @ [LF]) (0, deviceList half_mgr) =
     Inr (1, [Some (device_of ''ab'' ''device'' []), None]) \<and>
   (\<exists>d. [Some (device_of ''ab'' ''device'' []), None] ! 0 = Some d \<and>
      model d = memset0 (model_size small_config) \<and> model d ! 0 = NUL) \<and>
   [Some (device_of ''ab'' ''device'' []), None] ! 1 = deviceList half_mgr ! 1"
proof -
  let ?d = "device_of ''cd'' ''device'' []"
  let ?r = "device_of ''ab'' ''device'' ''Pixel''"
  have c: "config_ok small_config"
    by (simp add: config_ok_def small_config_def)
  have ok: "mgr_ok small_config half_mgr" "mgr_ok small_config mixed_mgr_at_1"
    by (simp_all add: mgr_ok_def small_config_def mixed_mgr_def half_mgr_def mixed_mgr_at_1_def)
  have h0: "deviceList half_mgr ! 0 = Some ?r"
    by (simp add: half_mgr_def)
  have r0: "model ?r ! 0 \<noteq> NUL"
    by (simp add: device_of_def NUL_def)
  have cur: "deviceList mixed_mgr_at_1 ! cursor small_config mixed_mgr_at_1 = Some ?d"
    by (simp add: cursor_def mixed_mgr_at_1_def mixed_mgr_def small_config_def)
  have on: "\<not> reads_offline small_config ?d"
    by (simp add: reads_offline_def memcmp_eq_def device_of_def small_config_def)
  have em: "model ?d ! 0 = NUL"
    by (simp add: device_of_def)
  have f: "\<not> cmd_succeeds backend_down (getprop_argv ?d)"
    by (simp add: cmd_succeeds_def backend_down_def)
  have s: "cmd_succeeds (backend_ok ''Pixel'') (getprop_argv ?d)"
    by (simp add: cmd_succeeds_def backend_ok_def)
  have ms: "3 \<le> model_size small_config"
    by (simp add: small_config_def)
  have t: "captured (backend_ok ''Pixel'' (getprop_argv ?d)) \<noteq> []"
    "safe_char (hd (captured (backend_ok ''Pixel'' (getprop_argv ?d))))"
    by (simp_all add: backend_ok_def safe_char_def isalnum_def)
  have ev: "Reload small_config (backend_ok one_device_listing) half_mgr =
     Inr (True, \<lparr>deviceList = [Some (device_of ''ab'' ''device'' []), None], iter = 0\<rparr>)"
    by code_simp
  have tk: "strtok_r (c_str (captured (backend_ok one_device_listing [adb_exe, ''devices'']))) =
      Some (attached_header, ''ab'' @ [TAB] @ ''device'' @ [LF])"
    by code_simp
  have lp: "Reload_loop small_config attached_header (''ab'' @ [TAB] @ ''device'' @ [LF])
      (0, deviceList half_mgr) = Inr (1, [Some (device_of ''ab'' ''device'' []), None])"
    by code_simp
  note th4 = model_resolution_policy [OF c ok(1), where be' = "backend_ok one_device_listing"]
  from th4 ev obtain p n i
    where q1: "strtok_r (c_str (captured (backend_ok one_device_listing [adb_exe, ''devices'']))) = Some (p, n)"
      and q2: "Reload_loop small_config p n (0, deviceList half_mgr) =
                 Inr (i, deviceList \<lparr>deviceList = [Some (device_of ''ab'' ''device'' []), None], iter = 0\<rparr>)"
      and q3: "\<forall>j<i. \<exists>d. deviceList \<lparr>deviceList = [Some (device_of ''ab'' ''device'' []), None], iter = 0\<rparr> ! j = Some d \<and>
                 model d = memset0 (model_size small_config) \<and> model d ! 0 = NUL"
      and q4: "\<forall>j. i \<le> j \<longrightarrow>
                 deviceList \<lparr>deviceList = [Some (device_of ''ab'' ''device'' []), None], iter = 0\<rparr> ! j =
                 deviceList half_mgr ! j"
    by blast
  from q1 tk have pn: "p = attached_header" "n = ''ab'' @ [TAB] @ ''device'' @ [LF]" by simp_all
  from q2 lp pn have i1: "i = 1" by simp
  from i1 have i0: "0 < i" and i2: "i \<le> 1" by simp_all
  from q3 [rule_format, OF i0]
  have z: "\<exists>d. [Some (device_of ''ab'' ''device'' []), None] ! 0 = Some d \<and>
      model d = memset0 (model_size small_config) \<and> model d ! 0 = NUL"
    by (simp only: AdbMgr.select_convs)
  from q4 [rule_format, OF i2]
  have k: "[Some (device_of ''ab'' ''device'' []), None] ! 1 = deviceList half_mgr ! 1"
    by (simp only: AdbMgr.select_convs)
  note th1 = model_resolution_policy [OF c ok(1), where bes = "[backend_down, backend_down]" and off = 0]
  from th1 h0 r0
  have a: "\<exists>rs m' off'. NextDevice_calls small_config [backend_down, backend_down] half_mgr 0 = Inr (rs, m', off') \<and>
      length rs = 2 \<and> deviceList m' ! 0 = Some ?r"
    by fastforce
  note th2 = model_resolution_policy [OF c ok(2), where be = "backend_ok ''Pixel''" and off = 0]
  from th2 cur on em
  have "NextDevice small_config (backend_ok ''Pixel'') mixed_mgr_at_1 0 =
          Inr (Some (cursor small_config mixed_mgr_at_1), 0,
               mixed_mgr_at_1\<lparr>iter := int (cursor small_config mixed_mgr_at_1) + 1,
                 deviceList := (deviceList mixed_mgr_at_1)[cursor small_config mixed_mgr_at_1 :=
                     Some (fst (GetModel small_config (backend_ok ''Pixel'') ?d))]\<rparr>,
               [getprop_argv ?d])"
    by blast
  also have "\<dots> = Inr (Some 1, 0,
          \<lparr>deviceList = [Some (device_of ''ab'' ''offline'' []), Some (device_of ''cd'' ''device'' ''Pixel'')],
           iter = 2\<rparr>,
          [[''adb'', ''-s'', ''cd'', ''shell'', ''getprop'', ''ro.product.model'']])"
    by code_simp
  finally have b: "NextDevice small_config (backend_ok ''Pixel'') mixed_mgr_at_1 0 =
     Inr (Some 1, 0,
          \<lparr>deviceList = [Some (device_of ''ab'' ''offline'' []), Some (device_of ''cd'' ''device'' ''Pixel'')],
           iter = 2\<rparr>,
          [[''adb'', ''-s'', ''cd'', ''shell'', ''getprop'', ''ro.product.model'']])" .
  from th2 cur on em s ms t
  have g: "model (fst (GetModel small_config (backend_ok ''Pixel'') ?d)) ! 0 \<noteq> NUL"
    by blast
  note th3 = model_resolution_policy [OF c ok(2), where be = backend_down and off = 0]
  from th3 cur on em f
  have e: "fst (GetModel small_config backend_down ?d) = ?d"
    by blast
  from c ok h0 r0 a cur on em b f e s g ev lp z k show ?thesis
    by blast
qed

text \<open>
  Both slots in use, the second device online with no model, and a backend on which
  every command fails: four calls visit the second device twice and start its model
  query both times.
\<close>

theorem model_query_repeats_counterexample:
  "NextDevice_calls small_config [backend_down, backend_down, backend_down, backend_down] mixed_mgr 0 =
     Inr ([(Some 0, 1, []),
           (Some 1, 0, [[''adb'', ''-s'', ''cd'', ''shell'', ''getprop'', ''ro.product.model'']]),
           (Some 0, 1, []),
           (Some 1, 0, [[''adb'', ''-s'', ''cd'', ''shell'', ''getprop'', ''ro.product.model'']])],
          mixed_mgr\<lparr>iter := 2\<rparr>, 0)"
  by code_simp

section \<open>Parsing the device listing\<close>

lemma strtok_r_line:
  assumes "p \<noteq> []" and "LF \<notin> set p" and "t = [] \<or> hd t = LF"
  shows "strtok_r (p @ t) = Some (p, drop 1 t)"
proof -
  obtain x xs where p: "p = x # xs" using assms(1) by (cases p) auto
  with assms(2) have "x \<noteq> LF" by auto
  then have d: "dropWhile (\<lambda>x. x = LF) (p @ t) = p @ t" by (simp add: p)
  have tw: "takeWhile (\<lambda>x. x \<noteq> LF) t = []" and dw: "dropWhile (\<lambda>x. x \<noteq> LF) t = t"
    using assms(3) by (cases t; auto)+
  have "takeWhile (\<lambda>x. x \<noteq> LF) (p @ t) = p"
    using assms(2) tw by (subst takeWhile_append2) auto
  moreover have "dropWhile (\<lambda>x. x \<noteq> LF) (p @ t) = t"
    using assms(2) dw by (subst dropWhile_append2) auto
  ultimately show ?thesis
    using assms(1) by (simp add: strtok_r_def d Let_def)
qed

lemma after_lines_head:
  "t = [] \<or> hd t = LF \<Longrightarrow> after_lines ps @ t = [] \<or> hd (after_lines ps @ t) = LF"
  by (cases ps) (auto simp: after_lines_def)

lemma after_lines_Cons: "after_lines (p # ps) = LF # p @ after_lines ps"
  by (simp add: after_lines_def)

lemma loop_tokens:
  assumes "\<forall>p\<in>set (p0 # ps). p \<noteq> [] \<and> LF \<notin> set p" and "t = [] \<or> hd t = LF"
  shows "Reload_loop c p0 (drop 1 (after_lines ps @ t)) st =
     (case Reload_tokens c (p0 # ps) st of
        Inl f \<Rightarrow> Inl f
      | Inr (Break st') \<Rightarrow> Inr st'
      | Inr (Continue st') \<Rightarrow>
          (case strtok_r (drop 1 t) of None \<Rightarrow> Inr st' | Some (p', n') \<Rightarrow> Reload_loop c p' n' st'))"
  using assms(1)
proof (induction ps arbitrary: p0 st)
  case Nil
  show ?case
    by (subst Reload_loop.simps) (simp add: after_lines_def split: sum.splits ctl.splits)
next
  case (Cons p1 ps)
  define n where "n = drop 1 (after_lines (p1 # ps) @ t)"
  define n1 where "n1 = drop 1 (after_lines ps @ t)"
  have p1: "p1 \<noteq> []" "LF \<notin> set p1" using Cons.prems by auto
  have tok: "strtok_r n = Some (p1, n1)"
    using strtok_r_line [OF p1 after_lines_head [OF assms(2)], of ps]
    by (simp add: after_lines_Cons n_def n1_def)
  have rest: "\<forall>p\<in>set (p1 # ps). p \<noteq> [] \<and> LF \<notin> set p" using Cons.prems by auto
  note ih = Cons.IH [OF rest, folded n1_def]
  have "Reload_loop c p0 n st =
     (case Reload_tokens c (p0 # p1 # ps) st of
        Inl f \<Rightarrow> Inl f
      | Inr (Break st') \<Rightarrow> Inr st'
      | Inr (Continue st') \<Rightarrow>
          (case strtok_r (drop 1 t) of None \<Rightarrow> Inr st' | Some (p', n') \<Rightarrow> Reload_loop c p' n' st'))"
  proof (cases "Reload_body c p0 st")
    case (Inl f)
    then show ?thesis by (subst Reload_loop.simps) simp
  next
    case (Inr x)
    show ?thesis
    proof (cases x)
      case (Break st1)
      with Inr show ?thesis by (subst Reload_loop.simps) simp
    next
      case (Continue st1)
      with Inr have "Reload_loop c p0 n st = Reload_loop c p1 n1 st1"
        by (subst Reload_loop.simps) (simp add: tok)
      also note ih [of st1]
      finally show ?thesis using Inr Continue by simp
    qed
  qed
  then show ?case by (simp only: n_def)
qed

lemma strstr_set: "strstr hay needle = Some r \<Longrightarrow> set needle \<subseteq> set hay"
proof (induction hay)
  case Nil
  then show ?case by (simp split: if_splits)
next
  case (Cons h hs)
  show ?case
  proof (cases "take (length needle) (h # hs) = needle")
    case True
    have "set (take (length needle) (h # hs)) \<subseteq> set (h # hs)" by (rule set_take_subset)
    with True show ?thesis by simp
  next
    case False
    with Cons show ?thesis by auto
  qed
qed

lemma body_header: "strstr h ''List of'' \<noteq> None \<Longrightarrow> Reload_body c h st = Inr (Continue st)"
  by (simp add: Reload_body_def)

lemma body_no_separator:
  assumes "no_separator b"
  shows "Reload_body c b st = Inr (Break st)"
proof -
  from assms have sp: "SP \<notin> set b" and tb: "TAB \<notin> set b"
    by (auto simp: no_separator_def list_all_iff token_char_def)
  have "strstr b ''List of'' = None"
  proof (cases "strstr b ''List of''")
    case (Some r)
    from strstr_set [OF this] sp show ?thesis by (simp add: SP_def)
  qed simp
  with sp tb show ?thesis by (simp add: Reload_body_def strchr_def)
qed

lemma separator_split:
  assumes "list_all token_char s" and "separator_ok w" and "list_all token_char t"
  shows "(case strchr (s @ w @ t) SP of Some k \<Rightarrow> Some k | None \<Rightarrow> strchr (s @ w @ t) TAB) = Some (length s)"
proof -
  obtain x xs where w: "w = x # xs" using assms(2) by (cases w) (auto simp: separator_ok_def)
  have s: "SP \<notin> set s" "TAB \<notin> set s" and t: "SP \<notin> set t" "TAB \<notin> set t"
    using assms(1,3) by (auto simp: list_all_iff token_char_def)
  show ?thesis
  proof (cases "x = SP")
    case True
    have "takeWhile (\<lambda>y. y \<noteq> SP) (s @ w @ t) = s"
      using s(1) True w by (subst takeWhile_append2) auto
    with True w show ?thesis by (simp add: strchr_def)
  next
    case False
    with assms(2) w have tabs: "list_all (\<lambda>x. x = TAB) w" and x: "x = TAB"
      by (auto simp: separator_ok_def)
    then have "SP \<notin> set w" by (auto simp: list_all_iff SP_def TAB_def)
    with s t have n: "strchr (s @ w @ t) SP = None" by (simp add: strchr_def)
    have "takeWhile (\<lambda>y. y \<noteq> TAB) (s @ w @ t) = s"
      using s(2) x w by (subst takeWhile_append2) auto
    with x w n show ?thesis by (simp add: strchr_def)
  qed
qed

lemma blank_chars: "is_blank SP" "is_blank TAB"
  by (simp_all add: is_blank_def SP_def TAB_def CR_def NUL_def)

lemma token_not_blank: "token_char y \<Longrightarrow> \<not> is_blank y"
  by (simp add: token_char_def is_blank_def)

lemma skip_blanks:
  assumes "separator_ok (x # xs)" and "list_all token_char t" and "t \<noteq> []"
  shows "dropWhile is_blank (xs @ t) = t"
proof -
  have all: "list_all (\<lambda>y. y = SP \<or> y = TAB) xs"
    using assms(1) by (simp add: separator_ok_def)
  have b: "is_blank y" if "y \<in> set xs" for y
  proof -
    from all that have "y = SP \<or> y = TAB" by (simp add: list_all_iff)
    then show ?thesis using blank_chars by blast
  qed
  obtain y ys where t: "t = y # ys" using assms(3) by (cases t) auto
  from assms(2) have "token_char y" by (simp add: t)
  then have nb: "\<not> is_blank y" by (rule token_not_blank)
  have "dropWhile is_blank (xs @ t) = dropWhile is_blank t"
    using b by (rule dropWhile_append2)
  also have "\<dots> = t" using nb by (simp add: t)
  finally show ?thesis .
qed

lemma Reload_body_stores:
  assumes "strstr p ''List of'' = None"
    and "(case strchr p SP of Some k \<Rightarrow> Some k | None \<Rightarrow> strchr p TAB) = Some sep"
    and "0 < sep" and "sep \<le> serial_size c - 1"
    and "dropWhile is_blank (drop (sep + 1) p) = q" and "q \<noteq> []" and "length q \<le> state_size c - 1"
    and "i < length dl"
  shows "Reload_body c p (i, dl) =
           Inr ((if Suc i = DEVICES_LIMIT c then Break else Continue)
                  (Suc i, dl[i := Some \<lparr>serial = memcpy (memset0 (serial_size c)) p sep,
                                         state = memcpy (memset0 (state_size c)) q (length q),
                                         model = memset0 (model_size c)\<rparr>]))"
  using assms by (simp add: Reload_body_def Let_def)

lemma body_device_line:
  assumes "device_line_ok c l" and "i < length dl"
  shows "Reload_body c (line_text l) (i, dl) =
           Inr ((if Suc i = DEVICES_LIMIT c then Break else Continue) (Suc i, dl[i := Some (stored c l)]))"
proof -
  obtain s w t where l: "l = (s, w, t)" by (cases l)
  from assms(1) have ok: "s \<noteq> []" "length s < serial_size c" "list_all token_char s" "separator_ok w"
    "t \<noteq> []" "length t < state_size c" "list_all token_char t" "strstr (s @ w @ t) ''List of'' = None"
    by (simp_all add: device_line_ok_def l)
  obtain x xs where w: "w = x # xs" using ok(4) by (cases w) (simp_all add: separator_ok_def)
  note sep = separator_split [OF ok(3,4,7)]
  have "drop (length s + 1) (s @ w @ t) = xs @ t"
    by (simp add: w)
  with skip_blanks [OF ok(4) [unfolded w] ok(7,5)]
  have q: "dropWhile is_blank (drop (length s + 1) (s @ w @ t)) = t" by simp
  have ser: "memcpy (memset0 (serial_size c)) (s @ w @ t) (length s) =
               s @ replicate (serial_size c - length s) NUL"
    by (simp add: memcpy_def memset0_def)
  have sta: "memcpy (memset0 (state_size c)) t (length t) =
               t @ replicate (state_size c - length t) NUL"
    by (simp add: memcpy_def memset0_def)
  have le: "0 < length s" "length s \<le> serial_size c - 1" "length t \<le> state_size c - 1"
    using ok(1,2,6) by auto
  have "Reload_body c (s @ w @ t) (i, dl) =
           Inr ((if Suc i = DEVICES_LIMIT c then Break else Continue)
                  (Suc i, dl[i := Some \<lparr>serial = memcpy (memset0 (serial_size c)) (s @ w @ t) (length s),
                                         state = memcpy (memset0 (state_size c)) t (length t),
                                         model = memset0 (model_size c)\<rparr>]))"
    by (rule Reload_body_stores [OF ok(8) sep le(1,2) q ok(5) le(3) assms(2)])
  then show ?thesis
    unfolding ser sta by (simp add: line_text_def l stored_def memset0_def)
qed

lemma tokens_append:
  "Reload_tokens c (xs @ ys) st =
     (case Reload_tokens c xs st of Inr (Continue st') \<Rightarrow> Reload_tokens c ys st' | r \<Rightarrow> r)"
  by (induction xs arbitrary: st) (auto split: sum.splits ctl.splits)

lemma tokens_headers:
  "list_all header_ok hs \<Longrightarrow> Reload_tokens c hs st = Inr (Continue st)"
  by (induction hs) (simp_all add: header_ok_def body_header)

lemma tokens_device_lines:
  assumes "\<forall>l\<in>set ls. device_line_ok c l" and "i + length ls \<le> length dl"
    and "length dl = DEVICES_LIMIT c"
  shows "Reload_tokens c (map line_text ls) (i, dl) =
           Inr ((if ls \<noteq> [] \<and> i + length ls = DEVICES_LIMIT c then Break else Continue)
                  (i + length ls, take i dl @ map (\<lambda>l. Some (stored c l)) ls @ drop (i + length ls) dl))"
  using assms
proof (induction ls arbitrary: i dl)
  case Nil
  then show ?case by simp
next
  case (Cons l ls)
  have i: "i < length dl" using Cons.prems(2) by simp
  let ?x = "Some (stored c l)"
  let ?dl = "dl[i := ?x]"
  have b: "Reload_body c (line_text l) (i, dl) =
           Inr ((if Suc i = DEVICES_LIMIT c then Break else Continue) (Suc i, ?dl))"
  proof (rule body_device_line)
    show "device_line_ok c l" using Cons.prems(1) by simp
    show "i < length dl" by (rule i)
  qed
  have upd: "?dl = take i dl @ ?x # drop (Suc i) dl"
    using i by (rule upd_conv_take_nth_drop)
  show ?case
  proof (cases "Suc i = DEVICES_LIMIT c")
    case True
    have "i + Suc (length ls) \<le> DEVICES_LIMIT c" using Cons.prems(2,3) by simp
    with True have "length ls = 0" by linarith
    then have nil: "ls = []" by simp
    have "Reload_tokens c [line_text l] (i, dl) = Inr (Break (Suc i, ?dl))"
      using b True by simp
    also have "?dl = take i dl @ map (\<lambda>l. Some (stored c l)) [l] @ drop (i + length [l]) dl"
      by (simp add: upd)
    finally show ?thesis
      using True by (simp add: nil)
  next
    case False
    have ih: "Reload_tokens c (map line_text ls) (Suc i, ?dl) =
           Inr ((if ls \<noteq> [] \<and> Suc i + length ls = DEVICES_LIMIT c then Break else Continue)
                  (Suc i + length ls,
                   take (Suc i) ?dl @ map (\<lambda>l. Some (stored c l)) ls @ drop (Suc i + length ls) ?dl))"
    proof (rule Cons.IH)
      show "\<forall>l\<in>set ls. device_line_ok c l" using Cons.prems(1) by simp
      show "Suc i + length ls \<le> length ?dl" using Cons.prems(2) by simp
      show "length ?dl = DEVICES_LIMIT c" using Cons.prems(3) by simp
    qed
    have t: "take (Suc i) ?dl = take i dl @ [?x]"
      using i by (simp add: upd)
    have d: "drop (Suc i + length ls) ?dl = drop (Suc i + length ls) dl"
      by (simp add: drop_update_cancel)
    have step: "Reload_tokens c (map line_text (l # ls)) (i, dl) =
                  Reload_tokens c (map line_text ls) (Suc i, ?dl)"
      using b False by simp
    have cond: "(l # ls \<noteq> [] \<and> i + length (l # ls) = DEVICES_LIMIT c) =
                (ls \<noteq> [] \<and> Suc i + length ls = DEVICES_LIMIT c)"
      using False by (cases ls) simp_all
    have app: "take i dl @ map (\<lambda>l. Some (stored c l)) (l # ls) @ drop (i + length (l # ls)) dl =
               (take i dl @ [?x]) @ map (\<lambda>l. Some (stored c l)) ls @ drop (Suc i + length ls) dl"
      by simp
    have idx: "i + length (l # ls) = Suc i + length ls" by simp
    have "Reload_tokens c (map line_text (l # ls)) (i, dl) =
           Inr ((if ls \<noteq> [] \<and> Suc i + length ls = DEVICES_LIMIT c then Break else Continue)
                  (Suc i + length ls,
                   (take i dl @ [?x]) @ map (\<lambda>l. Some (stored c l)) ls @ drop (Suc i + length ls) dl))"
      by (simp only: step ih t d)
    also have "\<dots> = Inr ((if l # ls \<noteq> [] \<and> i + length (l # ls) = DEVICES_LIMIT c then Break else Continue)
                  (i + length (l # ls),
                   take i dl @ map (\<lambda>l. Some (stored c l)) (l # ls) @ drop (i + length (l # ls)) dl))"
      by (simp only: cond app) (simp only: idx)
    finally show ?thesis .
  qed
qed

lemma char_distinct: "SP \<noteq> LF" "TAB \<noteq> LF" "SP \<noteq> NUL" "TAB \<noteq> NUL" "LF \<noteq> NUL"
  by (simp_all add: SP_def TAB_def LF_def NUL_def)

lemma strstr_Nil: "strstr [] ''List of'' = None"
  by simp

lemma header_clean: "header_ok h \<Longrightarrow> h \<noteq> [] \<and> LF \<notin> set h \<and> NUL \<notin> set h"
  using strstr_Nil by (auto simp: header_ok_def)

lemma token_clean: "list_all token_char s \<Longrightarrow> LF \<notin> set s \<and> NUL \<notin> set s"
  by (auto simp: list_all_iff token_char_def)

lemma separator_clean: "separator_ok w \<Longrightarrow> LF \<notin> set w \<and> NUL \<notin> set w"
proof -
  assume "separator_ok w"
  then have "\<forall>x\<in>set w. x = SP \<or> x = TAB" by (simp add: separator_ok_def list_all_iff)
  then show ?thesis using char_distinct by auto
qed

lemma device_line_clean:
  assumes "device_line_ok c l"
  shows "line_text l \<noteq> [] \<and> LF \<notin> set (line_text l) \<and> NUL \<notin> set (line_text l)"
proof -
  obtain s w t where l: "l = (s, w, t)" by (cases l)
  from assms have "s \<noteq> []" "list_all token_char s" "separator_ok w" "list_all token_char t"
    by (simp_all add: device_line_ok_def l)
  with token_clean [of s] token_clean [of t] separator_clean [of w]
  show ?thesis by (simp add: line_text_def l)
qed

lemma no_separator_clean: "no_separator b \<Longrightarrow> b \<noteq> [] \<and> LF \<notin> set b \<and> NUL \<notin> set b"
  using token_clean [of b] by (simp add: no_separator_def)

lemma listing_clean:
  assumes "list_all header_ok hs" and "\<forall>l\<in>set ls. device_line_ok c l" and "list_all no_separator bs"
  shows "\<forall>p\<in>set (hs @ map line_text ls @ bs). p \<noteq> [] \<and> LF \<notin> set p \<and> NUL \<notin> set p"
proof
  fix p assume "p \<in> set (hs @ map line_text ls @ bs)"
  then consider "p \<in> set hs" | l where "l \<in> set ls" "p = line_text l" | "p \<in> set bs" by auto
  then show "p \<noteq> [] \<and> LF \<notin> set p \<and> NUL \<notin> set p"
  proof cases
    case 1
    with assms(1) have "header_ok p" by (simp add: list_all_iff)
    then show ?thesis by (rule header_clean)
  next
    case 2
    with assms(2) have "device_line_ok c l" by simp
    with 2 show ?thesis by (simp add: device_line_clean)
  next
    case 3
    with assms(3) have "no_separator p" by (simp add: list_all_iff)
    then show ?thesis by (rule no_separator_clean)
  qed
qed

lemma after_lines_no_NUL: "\<forall>p\<in>set ps. NUL \<notin> set p \<Longrightarrow> NUL \<notin> set (after_lines ps)"
  using char_distinct(5) by (induction ps) (auto simp: after_lines_def)

lemma c_str_append: "NUL \<notin> set xs \<Longrightarrow> c_str (xs @ ys) = xs @ c_str ys"
  unfolding c_str_def by (rule takeWhile_append2) auto

lemma c_str_head: "r = [] \<or> hd r = LF \<Longrightarrow> c_str r = [] \<or> hd (c_str r) = LF"
  using char_distinct(5) by (cases r) (auto simp: c_str_def)

lemma tokens_listing:
  assumes "list_all header_ok hs" and "\<forall>l\<in>set ls. device_line_ok c l" and "list_all no_separator bs"
    and "length ls \<le> length dl" and "length dl = DEVICES_LIMIT c"
  shows "Reload_tokens c (hs @ map line_text ls @ bs) (0, dl) =
           Inr ((if (ls \<noteq> [] \<and> length ls = DEVICES_LIMIT c) \<or> bs \<noteq> [] then Break else Continue)
                  (length ls, map (\<lambda>l. Some (stored c l)) ls @ drop (length ls) dl))"
proof -
  let ?st = "(length ls, map (\<lambda>l. Some (stored c l)) ls @ drop (length ls) dl)"
  have dev: "Reload_tokens c (map line_text ls) (0, dl) =
           Inr ((if ls \<noteq> [] \<and> length ls = DEVICES_LIMIT c then Break else Continue) ?st)"
    using tokens_device_lines [OF assms(2), of 0 dl] assms(4,5) by simp
  have bad: "Reload_tokens c bs ?st = Inr ((if bs \<noteq> [] then Break else Continue) ?st)"
  proof (cases bs)
    case Nil
    then show ?thesis by simp
  next
    case (Cons b bs')
    with assms(3) have "no_separator b" by simp
    then have "Reload_body c b ?st = Inr (Break ?st)" by (rule body_no_separator)
    with Cons show ?thesis by simp
  qed
  have "Reload_tokens c (hs @ map line_text ls @ bs) (0, dl) = Reload_tokens c (map line_text ls @ bs) (0, dl)"
    by (subst tokens_append) (simp add: tokens_headers [OF assms(1)])
  also have "\<dots> = (if ls \<noteq> [] \<and> length ls = DEVICES_LIMIT c then Inr (Break ?st) else Reload_tokens c bs ?st)"
    by (subst tokens_append) (simp add: dev)
  also have "\<dots> = Inr ((if (ls \<noteq> [] \<and> length ls = DEVICES_LIMIT c) \<or> bs \<noteq> [] then Break else Continue) ?st)"
    by (simp add: bad)
  finally show ?thesis .
qed

lemma Reload_listing:
  assumes cfg: "config_ok c"
    and ro: "cmd_succeeds be [adb_exe, ''reconnect'', ''offline'']"
    and dd: "cmd_succeeds be [adb_exe, ''devices'']"
    and cap: "captured (be [adb_exe, ''devices'']) = lines_text (hs @ map line_text ls @ bs) @ rest"
    and ne: "hs @ map line_text ls @ bs \<noteq> []"
    and hs: "list_all header_ok hs" and ls: "\<forall>l\<in>set ls. device_line_ok c l"
    and bs: "list_all no_separator bs"
    and rest: "rest = [] \<or> hd rest = LF" and fin: "bs \<noteq> [] \<or> rest = [] \<or> rest = [LF]"
    and len: "length ls \<le> DEVICES_LIMIT c" "length (deviceList m) = DEVICES_LIMIT c"
  shows "Reload c be m =
           Inr (True, m\<lparr>deviceList := map (\<lambda>l. Some (stored c l)) ls @ drop (length ls) (deviceList m)\<rparr>)"
proof -
  let ?toks = "hs @ map line_text ls @ bs"
  let ?st = "(length ls, map (\<lambda>l. Some (stored c l)) ls @ drop (length ls) (deviceList m))"
  obtain p0 ps where toks: "?toks = p0 # ps" using ne by (cases ?toks) auto
  note clean = listing_clean [OF hs ls bs, unfolded toks]
  have guard: "\<not> 32 * ptr_size c - 4 < 2" "\<not> 32 * ptr_size c - 4 < 1"
    using cfg by (auto simp: config_ok_def)
  have e1: "adb_execute c be None [''reconnect'', ''offline''] =
              (Some (be [adb_exe, ''reconnect'', ''offline'']),
               captured (be [adb_exe, ''reconnect'', ''offline'']), [[adb_exe, ''reconnect'', ''offline'']])"
    using ro guard by (simp add: adb_execute_def cmd_succeeds_def Let_def)
  have e2: "adb_execute c be None [''devices''] =
              (Some (be [adb_exe, ''devices'']), lines_text ?toks @ rest, [[adb_exe, ''devices'']])"
    using dd guard cap by (simp add: adb_execute_def cmd_succeeds_def Let_def)
  have ok: "process_check_success (Some (be [adb_exe, ''reconnect'', ''offline'']))"
    "process_check_success (Some (be [adb_exe, ''devices'']))"
    using ro dd by (simp_all add: process_check_success_def cmd_succeeds_def)
  have lt: "lines_text ?toks = p0 @ after_lines ps"
    by (simp add: lines_text_def toks after_lines_Cons)
  have nn: "NUL \<notin> set (p0 @ after_lines ps)"
    using clean after_lines_no_NUL [of ps] by simp
  let ?r = "c_str rest"
  have buf: "c_str (lines_text ?toks @ rest) = p0 @ (after_lines ps @ ?r)"
    using c_str_append [OF nn, of rest] by (simp add: lt)
  have r: "?r = [] \<or> hd ?r = LF" using rest by (rule c_str_head)
  have p0: "p0 \<noteq> []" "LF \<notin> set p0" using clean by simp_all
  define n where "n = drop 1 (after_lines ps @ ?r)"
  have tok: "strtok_r (p0 @ (after_lines ps @ ?r)) = Some (p0, n)"
    unfolding n_def by (rule strtok_r_line [OF p0 after_lines_head [OF r]])
  have all: "\<forall>p\<in>set (p0 # ps). p \<noteq> [] \<and> LF \<notin> set p" using clean by simp
  have tl: "Reload_tokens c (p0 # ps) (0, deviceList m) =
           Inr ((if (ls \<noteq> [] \<and> length ls = DEVICES_LIMIT c) \<or> bs \<noteq> [] then Break else Continue) ?st)"
    using tokens_listing [OF hs ls bs, of "deviceList m"] len by (simp add: toks)
  have last: "bs = [] \<Longrightarrow> strtok_r (drop 1 ?r) = None"
  proof -
    assume "bs = []"
    with fin have "rest = [] \<or> rest = [LF]" by simp
    then have "drop 1 ?r = []" using char_distinct(5) by (auto simp: c_str_def)
    then show ?thesis by (simp add: strtok_r_def)
  qed
  note lt2 = loop_tokens [OF all r, of c "(0, deviceList m)", unfolded tl, folded n_def]
  have loop: "Reload_loop c p0 n (0, deviceList m) = Inr ?st"
  proof (cases "(ls \<noteq> [] \<and> length ls = DEVICES_LIMIT c) \<or> bs \<noteq> []")
    case True
    with lt2 show ?thesis by simp
  next
    case False
    then have "bs = []" by simp
    from last [OF this] False lt2 show ?thesis by simp
  qed
  show ?thesis
    by (simp add: Reload_def e1 e2 ok buf tok loop)
qed

lemma c_str_padded: "NUL \<notin> set s \<Longrightarrow> c_str (s @ replicate n NUL) = s"
  by (cases n) (auto simp: c_str_def takeWhile_tail)

text \<open>
  C1, as the code has it. The text captured from \<^verbatim>\<open>devices\<close> is a header line that
  contains \<^verbatim>\<open>List of\<close>, then \<open>N\<close> device lines, \<open>N\<close> at most \<^verbatim>\<open>DEVICES_LIMIT\<close>, the lines
  joined by single newlines, with or without a newline at the end. Each device line
  is a serial, a separator and a state, where both tokens are not empty, have no
  space, tab, newline or NUL and are shorter than their fields, the separator is a
  run of spaces and tabs that starts with a space or has no space in it, and the line
  does not contain \<^verbatim>\<open>List of\<close>. Both commands succeed and the registry is as its
  constructor leaves it, every slot null. Then \<open>Reload\<close> returns true, the first \<open>N\<close> slots hold the records of the
  \<open>N\<close> lines in order and the other slots are still null; the record of a line has
  the line's serial and state as its strings and an all-zero model field.
\<close>

theorem Reload_round_trip:
  assumes "config_ok c"
    and "cmd_succeeds be [adb_exe, ''reconnect'', ''offline'']"
    and "cmd_succeeds be [adb_exe, ''devices'']"
    and "captured (be [adb_exe, ''devices'']) = lines_text (header # map line_text devs) @ trail"
    and "header_ok header" and "\<forall>l\<in>set devs. device_line_ok c l"
    and "length devs \<le> DEVICES_LIMIT c" and "trail = [] \<or> trail = [LF]"
    and "m = fst (AdbMgr_ctor c be0 it)"
  shows "Reload c be m =
           Inr (True, m\<lparr>deviceList := map (\<lambda>l. Some (stored c l)) devs @
                                          replicate (DEVICES_LIMIT c - length devs) None\<rparr>) \<and>
         (\<forall>(s, w, t)\<in>set devs.
            c_str (serial (stored c (s, w, t))) = s \<and> c_str (state (stored c (s, w, t))) = t \<and>
            model (stored c (s, w, t)) = memset0 (model_size c))"
proof
  have rest: "trail = [] \<or> hd trail = LF" using assms(8) by auto
  have fin: "[] \<noteq> ([] :: string list) \<or> trail = [] \<or> trail = [LF]" using assms(8) by simp
  have cap: "captured (be [adb_exe, ''devices'']) = lines_text ([header] @ map line_text devs @ []) @ trail"
    using assms(4) by simp
  have fresh: "deviceList m = replicate (DEVICES_LIMIT c) None"
    using assms(9) by (simp add: AdbMgr_ctor_def split: prod.splits)
  then have len: "length (deviceList m) = DEVICES_LIMIT c" by simp
  have "Reload c be m =
          Inr (True, m\<lparr>deviceList := map (\<lambda>l. Some (stored c l)) devs @ drop (length devs) (deviceList m)\<rparr>)"
    by (rule Reload_listing [OF assms(1-3) cap _ _ assms(6) _ rest fin assms(7) len])
      (simp_all add: assms(5))
  then show "Reload c be m =
           Inr (True, m\<lparr>deviceList := map (\<lambda>l. Some (stored c l)) devs @
                                          replicate (DEVICES_LIMIT c - length devs) None\<rparr>)"
    by (simp add: fresh)
  show "\<forall>(s, w, t)\<in>set devs.
            c_str (serial (stored c (s, w, t))) = s \<and> c_str (state (stored c (s, w, t))) = t \<and>
            model (stored c (s, w, t)) = memset0 (model_size c)"
  proof (clarify, intro conjI)
    fix s w t assume "(s, w, t) \<in> set devs"
    with assms(6) have "device_line_ok c (s, w, t)" by blast
    then have "list_all token_char s" "list_all token_char t" by (simp_all add: device_line_ok_def)
    then have n: "NUL \<notin> set s" "NUL \<notin> set t" using token_clean by blast+
    show "c_str (serial (stored c (s, w, t))) = s" using n(1) by (simp add: stored_def c_str_padded)
    show "c_str (state (stored c (s, w, t))) = t" using n(2) by (simp add: stored_def c_str_padded)
    show "model (stored c (s, w, t)) = memset0 (model_size c)" by (simp add: stored_def memset0_def)
  qed
qed

theorem Reload_round_trip_witness:
  "config_ok small_config \<and>
   cmd_succeeds (backend_ok (lines_text (attached_header # map line_text two_device_lines) @ [LF]))
     [adb_exe, ''reconnect'', ''offline''] \<and>
   header_ok attached_header \<and> list_all (device_line_ok small_config) two_device_lines \<and>
   length two_device_lines \<le> DEVICES_LIMIT small_config \<and>
   empty_mgr = fst (AdbMgr_ctor small_config backend_down 0) \<and>
   Reload small_config (backend_ok (lines_text (attached_header # map line_text two_device_lines) @ [LF]))
     empty_mgr =
     Inr (True, \<lparr>deviceList = [Some (device_of ''ab'' ''device'' []), Some (device_of ''cd'' ''offline'' [])],
                 iter = 0\<rparr>) \<and>
   c_str (serial (stored small_config (''cd'', [SP, SP], ''offline''))) = ''cd'' \<and>
   c_str (state (stored small_config (''cd'', [SP, SP], ''offline''))) = ''offline''"
proof -
  let ?txt = "lines_text (attached_header # map line_text two_device_lines) @ [LF]"
  have c: "config_ok small_config"
    by (simp add: config_ok_def small_config_def)
  have s: "cmd_succeeds (backend_ok ?txt) argv" for argv
    by (simp add: cmd_succeeds_def backend_ok_def)
  have cap: "captured (backend_ok ?txt [adb_exe, ''devices'']) = ?txt"
    by (simp add: backend_ok_def)
  have h: "header_ok attached_header"
    by code_simp
  have d: "list_all (device_line_ok small_config) two_device_lines"
    by code_simp
  then have d': "\<forall>l\<in>set two_device_lines. device_line_ok small_config l"
    by (simp add: list_all_iff)
  have n: "length two_device_lines \<le> DEVICES_LIMIT small_config"
    by (simp add: two_device_lines_def small_config_def)
  have t: "[LF] = [] \<or> [LF] = [LF]"
    by simp
  have e: "empty_mgr = fst (AdbMgr_ctor small_config backend_down 0)"
    by code_simp
  note th = Reload_round_trip [OF c s s cap h d' n t e]
  have "Reload small_config (backend_ok ?txt) empty_mgr =
     Inr (True, \<lparr>deviceList = [Some (device_of ''ab'' ''device'' []), Some (device_of ''cd'' ''offline'' [])],
                 iter = 0\<rparr>)"
    by (subst conjunct1 [OF th]) code_simp
  moreover have m: "(''cd'', [SP, SP], ''offline'') \<in> set two_device_lines"
    by (simp add: two_device_lines_def)
  from conjunct2 [OF th] m
  have "c_str (serial (stored small_config (''cd'', [SP, SP], ''offline''))) = ''cd'' \<and>
        c_str (state (stored small_config (''cd'', [SP, SP], ''offline''))) = ''offline''"
    by blast
  ultimately show ?thesis using c s h d n e by blast
qed

text \<open>
  A separator of a tab followed by a space: the serial stored is \<^verbatim>\<open>ab\<close> with the tab
  at its end. A device line with serial \<^verbatim>\<open>List\<close>, one space and state \<^verbatim>\<open>of\<close>: it is taken
  for a header and no slot is written.
\<close>

theorem Reload_round_trip_counterexample:
  "Reload small_config (backend_ok (lines_text [attached_header, ''ab'' @ [TAB, SP] @ ''device''] @ [LF]))
     empty_mgr =
     Inr (True, \<lparr>deviceList = [Some (device_of (''ab'' @ [TAB]) ''device'' []), None], iter = 0\<rparr>) \<and>
   c_str (serial (device_of (''ab'' @ [TAB]) ''device'' [])) \<noteq> ''ab'' \<and>
   Reload small_config (backend_ok (lines_text [attached_header, ''List'' @ [SP] @ ''of''] @ [LF]))
     empty_mgr = Inr (True, empty_mgr)"
  by code_simp

text \<open>
  C5, as the code has it. The captured text is: header lines (any number, each
  containing \<^verbatim>\<open>List of\<close>), then \<open>k - 1\<close> device lines of the form of C1, \<open>k - 1\<close> at most
  \<^verbatim>\<open>DEVICES_LIMIT\<close>, then a line that is not empty and has no space and no tab, the
  lines joined by single newlines; then nothing, or a newline and any text. Both
  commands succeed and the table has its \<^verbatim>\<open>DEVICES_LIMIT\<close> slots. Then \<open>Reload\<close> returns
  true, the first \<open>k - 1\<close> slots hold the records of the \<open>k - 1\<close> device lines in order and
  every other slot is as before; the result is the same whatever follows the line
  without separator.
\<close>

theorem Reload_stops_without_separator:
  assumes "config_ok c"
    and "cmd_succeeds be [adb_exe, ''reconnect'', ''offline'']"
    and "cmd_succeeds be [adb_exe, ''devices'']"
    and "captured (be [adb_exe, ''devices'']) = lines_text (hdr @ map line_text devs @ [bad]) @ rest"
    and "list_all header_ok hdr" and "\<forall>l\<in>set devs. device_line_ok c l" and "no_separator bad"
    and "rest = [] \<or> hd rest = LF"
    and "length devs \<le> DEVICES_LIMIT c" and "length (deviceList m) = DEVICES_LIMIT c"
  shows "Reload c be m =
           Inr (True, m\<lparr>deviceList := map (\<lambda>l. Some (stored c l)) devs @
                                          drop (length devs) (deviceList m)\<rparr>)"
  by (rule Reload_listing [OF assms(1-4) _ assms(5,6) _ assms(8) _ assms(9,10)])
    (simp_all add: assms(7))

theorem Reload_stops_without_separator_witness:
  "config_ok small_config \<and> list_all header_ok [attached_header] \<and>
   list_all (device_line_ok small_config) [(''xy'', [SP], ''device'')] \<and> no_separator ''garbage'' \<and>
   length [(''xy'', [SP], ''device'')] \<le> DEVICES_LIMIT small_config \<and>
   length (deviceList mixed_mgr) = DEVICES_LIMIT small_config \<and>
   Reload small_config
     (backend_ok (lines_text ([attached_header] @ map line_text [(''xy'', [SP], ''device'')] @ [''garbage'']) @
                  LF # ''ef'' @ [TAB] @ ''device'' @ [LF]))
     mixed_mgr =
     Inr (True, \<lparr>deviceList = [Some (device_of ''xy'' ''device'' []), Some (device_of ''cd'' ''device'' [])],
                 iter = 0\<rparr>)"
proof -
  let ?rest = "LF # ''ef'' @ [TAB] @ ''device'' @ [LF]"
  let ?txt = "lines_text ([attached_header] @ map line_text [(''xy'', [SP], ''device'')] @ [''garbage'']) @ ?rest"
  have c: "config_ok small_config"
    by (simp add: config_ok_def small_config_def)
  have s: "cmd_succeeds (backend_ok ?txt) argv" for argv
    by (simp add: cmd_succeeds_def backend_ok_def)
  have cap: "captured (backend_ok ?txt [adb_exe, ''devices'']) = ?txt"
    by (simp add: backend_ok_def)
  have h: "list_all header_ok [attached_header]"
    by code_simp
  have d: "list_all (device_line_ok small_config) [(''xy'', [SP], ''device'')]"
    by code_simp
  then have d': "\<forall>l\<in>set [(''xy'', [SP], ''device'')]. device_line_ok small_config l"
    by (simp add: list_all_iff)
  have b: "no_separator ''garbage''"
    by code_simp
  have r: "?rest = [] \<or> hd ?rest = LF"
    by simp
  have n: "length [(''xy'', [SP], ''device'')] \<le> DEVICES_LIMIT small_config"
    "length (deviceList mixed_mgr) = DEVICES_LIMIT small_config"
    by (simp_all add: small_config_def mixed_mgr_def)
  have "Reload small_config (backend_ok ?txt) mixed_mgr =
     Inr (True, \<lparr>deviceList = [Some (device_of ''xy'' ''device'' []), Some (device_of ''cd'' ''device'' [])],
                 iter = 0\<rparr>)"
    by (subst Reload_stops_without_separator [OF c s s cap h d' b r n]) code_simp
  with c h d b n show ?thesis by blast
qed

text \<open>
  Three device lines before the line without separator, in a table of two slots:
  two lines are written, the third is not. A line that begins with a space before
  the line without separator: no slot is written.
\<close>

theorem Reload_stops_without_separator_counterexample:
  "Reload small_config
     (backend_ok (lines_text [attached_header, ''ab'' @ [SP] @ ''device'', ''cd'' @ [SP] @ ''device'',
                              ''ef'' @ [SP] @ ''device'', ''garbage''] @ [LF]))
     empty_mgr =
     Inr (True, \<lparr>deviceList = [Some (device_of ''ab'' ''device'' []), Some (device_of ''cd'' ''device'' [])],
                 iter = 0\<rparr>) \<and>
   Reload small_config (backend_ok (lines_text [attached_header, SP # ''ab'', ''garbage''] @ [LF])) empty_mgr =
     Inr (True, empty_mgr)"
  by code_simp

section \<open>The multiplex registry: Reload and Connect\<close>

text \<open>
  C8, as the code has it. Where the daemon is asked (not the \<^verbatim>\<open>__APPLE__\<close> build, and
  the library loaded on \<^verbatim>\<open>_WIN32\<close>): a negative count from the daemon stores a device
  count of zero and \<open>Reload\<close> returns 0; a count of zero from the daemon stores zero
  and \<open>Reload\<close> returns 1. In both cases a following \<open>NextDevice\<close> returns null and
  leaves the registry as it is, when the cursor is not negative.
\<close>

theorem USBMux_Reload_zero_or_negative:
  assumes "platform k \<noteq> APPLE" and "platform k = WIN32 \<longrightarrow> hModule m"
    and "usbmuxd_get_device_list d = (cnt, lst)"
  shows "(cnt < 0 \<longrightarrow>
            USBMux_Reload k d m =
              (0, m\<lparr>mux_deviceList := lst, deviceCount := 0\<rparr>, [Device_list_free, Get_device_list])) \<and>
         (cnt = 0 \<longrightarrow>
            USBMux_Reload k d m =
              (1, m\<lparr>mux_deviceList := lst, deviceCount := 0\<rparr>, [Device_list_free, Get_device_list])) \<and>
         (cnt \<le> 0 \<and> 0 \<le> mux_iter m \<longrightarrow>
            USBMux_NextDevice (fst (snd (USBMux_Reload k d m))) =
              (None, fst (snd (USBMux_Reload k d m))))"
  using assms by (auto simp: USBMux_Reload_def USBMux_NextDevice_def)

theorem USBMux_Reload_zero_or_negative_witness:
  "platform linux_mux \<noteq> APPLE \<and> platform linux_mux \<noteq> WIN32 \<and> 0 \<le> mux_iter one_device_mux \<and>
   fst (USBMux_Reload linux_mux (daemon_with (- 1) 0) one_device_mux) = 0 \<and>
   deviceCount (fst (snd (USBMux_Reload linux_mux (daemon_with (- 1) 0) one_device_mux))) = 0 \<and>
   fst (USBMux_Reload linux_mux (daemon_with 0 0) one_device_mux) = 1 \<and>
   deviceCount (fst (snd (USBMux_Reload linux_mux (daemon_with 0 0) one_device_mux))) = 0 \<and>
   fst (USBMux_NextDevice (fst (snd (USBMux_Reload linux_mux (daemon_with (- 1) 0) one_device_mux)))) = None \<and>
   fst (USBMux_NextDevice (fst (snd (USBMux_Reload linux_mux (daemon_with 0 0) one_device_mux)))) = None"
proof -
  have p: "platform linux_mux \<noteq> APPLE" "platform linux_mux = WIN32 \<longrightarrow> hModule one_device_mux"
    "platform linux_mux \<noteq> WIN32"
    by (simp_all add: linux_mux_def)
  have g: "usbmuxd_get_device_list (daemon_with cnt 0) = (cnt, \<lambda>i. \<lparr>handle = 7\<rparr>)" for cnt
    by (simp add: daemon_with_def)
  have i: "0 \<le> mux_iter one_device_mux"
    by (simp add: one_device_mux_def)
  show ?thesis
    using p(1,3) i USBMux_Reload_zero_or_negative [OF p(1,2) g [of "- 1"]]
      USBMux_Reload_zero_or_negative [OF p(1,2) g [of 0]]
    by auto
qed

text \<open>
  With the daemon asked in both cases, \<open>Reload\<close> returns 0 for a negative count and 1
  for a count of zero: the caller tells them apart by the value returned.
\<close>

theorem USBMux_Reload_distinguishes_counterexample:
  "fst (USBMux_Reload linux_mux (daemon_with (- 1) 0) one_device_mux) = 0 \<and>
   fst (USBMux_Reload linux_mux (daemon_with 0 0) one_device_mux) = 1"
  by (simp add: USBMux_Reload_def linux_mux_def daemon_with_def)

lemma Connect_cases:
  "USBMux_Connect k d m device port =
     (if platform k = APPLE \<or> (platform k = WIN32 \<and> \<not> hModule m) \<or> deviceCount m \<le> device
      then Inr (INVALID_SOCKET k, [])
      else if device < 0 then Inl OutOfBounds
      else Inr (if usbmuxd_connect d (handle (mux_deviceList m device)) (short_of_int port) \<le> 0
                then INVALID_SOCKET k
                else usbmuxd_connect d (handle (mux_deviceList m device)) (short_of_int port),
                [Connect_call (handle (mux_deviceList m device)) (short_of_int port)]))"
  by (simp add: USBMux_Connect_def Let_def)

text \<open>
  C9. For every device index at or above the stored device count, \<open>Connect\<close> returns
  \<^verbatim>\<open>INVALID_SOCKET\<close> and makes no daemon call. Whenever \<open>Connect\<close> does call the daemon,
  it makes the one call \<^verbatim>\<open>usbmuxd_connect\<close> with the handle stored at that index and the
  port cast to \<^verbatim>\<open>short\<close>, and it returns \<^verbatim>\<open>INVALID_SOCKET\<close> when the daemon's result is
  not positive and the daemon's result itself when it is positive. With the daemon in
  use, an index from 0 up to the device count does make that call.
\<close>

theorem Connect_bounds_and_result:
  "(deviceCount m \<le> device \<longrightarrow> USBMux_Connect k d m device port = Inr (INVALID_SOCKET k, [])) \<and>
   (\<forall>rc calls. USBMux_Connect k d m device port = Inr (rc, calls) \<longrightarrow> calls \<noteq> [] \<longrightarrow>
      calls = [Connect_call (handle (mux_deviceList m device)) (short_of_int port)] \<and>
      rc = (if usbmuxd_connect d (handle (mux_deviceList m device)) (short_of_int port) \<le> 0
            then INVALID_SOCKET k
            else usbmuxd_connect d (handle (mux_deviceList m device)) (short_of_int port))) \<and>
   (0 \<le> device \<longrightarrow> device < deviceCount m \<longrightarrow> platform k \<noteq> APPLE \<longrightarrow>
    (platform k = WIN32 \<longrightarrow> hModule m) \<longrightarrow>
      USBMux_Connect k d m device port =
        Inr (if usbmuxd_connect d (handle (mux_deviceList m device)) (short_of_int port) \<le> 0
             then INVALID_SOCKET k
             else usbmuxd_connect d (handle (mux_deviceList m device)) (short_of_int port),
             [Connect_call (handle (mux_deviceList m device)) (short_of_int port)]))"
proof (intro conjI allI impI)
  assume "deviceCount m \<le> device"
  then show "USBMux_Connect k d m device port = Inr (INVALID_SOCKET k, [])"
    by (simp add: Connect_cases)
next
  fix rc calls
  assume r: "USBMux_Connect k d m device port = Inr (rc, calls)" and ne: "calls \<noteq> []"
  let ?r = "usbmuxd_connect d (handle (mux_deviceList m device)) (short_of_int port)"
  have "(rc, calls) = (if ?r \<le> 0 then INVALID_SOCKET k else ?r,
                       [Connect_call (handle (mux_deviceList m device)) (short_of_int port)])"
  proof (cases "platform k = APPLE \<or> (platform k = WIN32 \<and> \<not> hModule m) \<or> deviceCount m \<le> device")
    case True
    with r have "calls = []" by (simp add: Connect_cases)
    with ne show ?thesis by simp
  next
    case False
    show ?thesis
    proof (cases "device < 0")
      case True
      with False have "USBMux_Connect k d m device port = Inl OutOfBounds"
        by (simp add: Connect_cases)
      with r show ?thesis by simp
    next
      case neg: False
      from r have "Inr (rc, calls) = USBMux_Connect k d m device port" by simp
      also have "\<dots> = Inr (if ?r \<le> 0 then INVALID_SOCKET k else ?r,
                       [Connect_call (handle (mux_deviceList m device)) (short_of_int port)])"
        using False neg by (simp add: Connect_cases)
      finally show ?thesis by (simp only: sum.inject)
    qed
  qed
  then show "calls = [Connect_call (handle (mux_deviceList m device)) (short_of_int port)]"
    and "rc = (if ?r \<le> 0 then INVALID_SOCKET k else ?r)"
    by (simp_all only: prod.inject)
next
  assume "0 \<le> device" "device < deviceCount m" "platform k \<noteq> APPLE" "platform k = WIN32 \<longrightarrow> hModule m"
  then show "USBMux_Connect k d m device port =
        Inr (if usbmuxd_connect d (handle (mux_deviceList m device)) (short_of_int port) \<le> 0
             then INVALID_SOCKET k
             else usbmuxd_connect d (handle (mux_deviceList m device)) (short_of_int port),
             [Connect_call (handle (mux_deviceList m device)) (short_of_int port)])"
    by (simp add: Connect_cases)
qed

theorem Connect_bounds_and_result_witness:
  "deviceCount one_device_mux \<le> 1 \<and>
   USBMux_Connect linux_mux (daemon_with 1 5) one_device_mux 1 70000 = Inr (- 1, []) \<and>
   (0 :: int) \<le> 0 \<and> 0 < deviceCount one_device_mux \<and> platform linux_mux \<noteq> APPLE \<and>
   platform linux_mux \<noteq> WIN32 \<and>
   USBMux_Connect linux_mux (daemon_with 1 5) one_device_mux 0 70000 = Inr (5, [Connect_call 7 4464]) \<and>
   USBMux_Connect linux_mux (daemon_with 1 0) one_device_mux 0 70000 = Inr (- 1, [Connect_call 7 4464])"
proof -
  have le: "deviceCount one_device_mux \<le> 1"
    by (simp add: one_device_mux_def)
  have h: "(0 :: int) \<le> 0" "0 < deviceCount one_device_mux" "platform linux_mux \<noteq> APPLE"
    "platform linux_mux = WIN32 \<longrightarrow> hModule one_device_mux" "platform linux_mux \<noteq> WIN32"
    by (simp_all add: one_device_mux_def linux_mux_def)
  have w: "platform linux_mux = WIN32 \<Longrightarrow> hModule one_device_mux"
    using h(5) by simp
  have inv: "INVALID_SOCKET linux_mux = - 1"
    by (simp add: linux_mux_def)
  have sh: "short_of_int 70000 = 4464"
    by (simp add: short_of_int_def)
  have hd: "handle (mux_deviceList one_device_mux 0) = 7"
    by (simp add: one_device_mux_def)
  have dc: "usbmuxd_connect (daemon_with 1 rc) x y = rc" for rc x y
    by (simp add: daemon_with_def)
  note first = conjunct1 [OF Connect_bounds_and_result [of one_device_mux 1 linux_mux "daemon_with 1 5" 70000],
      rule_format, OF le]
  have a: "USBMux_Connect linux_mux (daemon_with 1 5) one_device_mux 1 70000 = Inr (- 1, [])"
    using first by (simp only: inv)
  have b: "USBMux_Connect linux_mux (daemon_with 1 rc) one_device_mux 0 70000 =
             Inr (if rc \<le> 0 then - 1 else rc, [Connect_call 7 4464])" for rc
    using conjunct2 [OF conjunct2 [OF Connect_bounds_and_result
          [of one_device_mux 0 linux_mux "daemon_with 1 rc" 70000]], rule_format, OF h(1-3) w]
    by (simp only: inv sh hd dc)
  have b5: "USBMux_Connect linux_mux (daemon_with 1 5) one_device_mux 0 70000 = Inr (5, [Connect_call 7 4464])"
    using b [of 5] by simp
  have b0: "USBMux_Connect linux_mux (daemon_with 1 0) one_device_mux 0 70000 = Inr (- 1, [Connect_call 7 4464])"
    using b [of 0] by simp
  from le a h(1,2,3,5) b5 b0 show ?thesis
    by (intro conjI)
qed

text \<open>
  C10, as the code has it. \<open>Connect\<close> checks the index against the device count only
  from above. With a negative index and a positive device count (and the daemon in
  use), the comparison \<^verbatim>\<open>device < deviceCount\<close> holds, \<open>Connect\<close> does not return
  \<^verbatim>\<open>INVALID_SOCKET\<close> for the index, and for the argument of \<^verbatim>\<open>usbmuxd_connect\<close> it reads
  \<^verbatim>\<open>deviceList[device]\<close> at the negative offset, outside the elements 0 up to the
  count: the fault \<open>OutOfBounds\<close>, before any daemon call.
\<close>

theorem Connect_negative_index:
  assumes "device < 0" and "0 < deviceCount m"
    and "platform k \<noteq> APPLE" and "platform k = WIN32 \<longrightarrow> hModule m"
  shows "device < deviceCount m \<and> device \<notin> {0..<deviceCount m} \<and>
         USBMux_Connect k d m device port = Inl OutOfBounds \<and>
         USBMux_Connect k d m device port \<noteq> Inr (INVALID_SOCKET k, [])"
proof -
  from assms(1,2) have lt: "device < deviceCount m" by simp
  from assms(1) have out: "device \<notin> {0..<deviceCount m}" by simp
  from assms(3,4) lt assms(1) have f: "USBMux_Connect k d m device port = Inl OutOfBounds"
    by (simp add: Connect_cases)
  then have "USBMux_Connect k d m device port \<noteq> Inr (INVALID_SOCKET k, [])"
    by simp
  with lt out f show ?thesis by (intro conjI)
qed

theorem Connect_negative_index_witness:
  "(- 1 :: int) < 0 \<and> 0 < deviceCount one_device_mux \<and> platform linux_mux \<noteq> APPLE \<and>
   platform linux_mux \<noteq> WIN32 \<and>
   USBMux_Connect linux_mux (daemon_with 1 5) one_device_mux (- 1) 80 = Inl OutOfBounds"
proof -
  have h: "(- 1 :: int) < 0" "0 < deviceCount one_device_mux" "platform linux_mux \<noteq> APPLE"
    "platform linux_mux = WIN32 \<longrightarrow> hModule one_device_mux" "platform linux_mux \<noteq> WIN32"
    by (simp_all add: one_device_mux_def linux_mux_def)
  note th = Connect_negative_index [OF h(1-4), of "daemon_with 1 5" 80]
  note f = conjunct1 [OF conjunct2 [OF conjunct2 [OF th]]]
  from h(1,2,3,5) f show ?thesis
    by (intro conjI)
qed

text \<open>
  One device, the daemon in use, index \<open>- 2147483648\<close>: the call of \<open>Connect\<close> ends in
  the read outside the device list, and no daemon call has been made.
\<close>

theorem Connect_negative_index_counterexample:
  "USBMux_Connect linux_mux (daemon_with 1 5) one_device_mux (- 2147483648) 80 = Inl OutOfBounds \<and>
   (\<forall>rc calls. USBMux_Connect linux_mux (daemon_with 1 5) one_device_mux (- 2147483648) 80 \<noteq>
      Inr (rc, calls))"
proof -
  have p: "platform linux_mux = OTHER" and c: "deviceCount one_device_mux = 1"
    by (simp_all add: linux_mux_def one_device_mux_def)
  have e: "USBMux_Connect linux_mux (daemon_with 1 5) one_device_mux (- 2147483648) 80 = Inl OutOfBounds"
    by (simp add: Connect_cases p c)
  show ?thesis unfolding e by simp
qed

end
